theory Spec2Isabelle
  imports
    Complex_Main
    "HOL-Library.Multiset"
    "HOL-Library.AList"
    "HOL-Library.Char_ord"
    "HOL-Library.List_Lexorder"
    "HOL-Library.Product_Lexorder"
begin

section \<open>The order management simulation (order\_manager.py)\<close>

text \<open>
  A shallow embedding of \<^verbatim>\<open>src/order_manager.py\<close>. Simulated times are Python
  floats in the source; they are modelled as \<^typ>\<open>real\<close>, so rounding, infinities and
  NaN are outside the model. Names and statuses are Python strings, counters are
  Python integers. A Python dictionary keyed by attendant name is an association list
  in insertion order with pairwise distinct keys.
\<close>

subsection \<open>Attendant\<close>

text \<open>
  \<^verbatim>\<open>class Attendant\<close>: the four attributes set by \<^verbatim>\<open>__init__\<close>.
\<close>

record attendant =
  name :: string
  active_orders :: "real list"
  status :: string
  next_available :: real

definition Attendant_init :: "string \<Rightarrow> attendant" where
  "Attendant_init n =
     \<lparr>name = n, active_orders = [], status = ''active'', next_available = 0\<rparr>"

text \<open>
  \<^verbatim>\<open>Attendant.update_state\<close>: the list comprehension keeps the start times \<open>t\<close> with
  \<open>t + 5 > current_time\<close>; the availability is then computed from the length of what
  is left. In the last branch the list has at least two entries, so both index reads
  are in range.
\<close>

definition update_state :: "attendant \<Rightarrow> real \<Rightarrow> attendant" where
  "update_state a current_time =
     (let ao = filter (\<lambda>t. t + 5 > current_time) (active_orders a) in
      a\<lparr>active_orders := ao,
        next_available :=
          (if length ao = 0 then current_time
           else if length ao = 1 then max current_time (ao ! 0 + 3)
           else max (ao ! 0 + 5) (ao ! 1 + 3))\<rparr>)"

text \<open>\<^verbatim>\<open>Attendant.can_accept\<close>.\<close>

definition can_accept :: "attendant \<Rightarrow> real \<Rightarrow> bool" where
  "can_accept a current_time =
     (if status a \<noteq> ''active'' then False
      else current_time \<ge> next_available a \<and> length (active_orders a) < 2)"

text \<open>\<^verbatim>\<open>Attendant.start_order\<close>: append, then sort ascending.\<close>

definition start_order :: "attendant \<Rightarrow> real \<Rightarrow> attendant" where
  "start_order a start_time = a\<lparr>active_orders := sort (active_orders a @ [start_time])\<rparr>"

subsection \<open>Event\<close>

text \<open>
  \<^verbatim>\<open>@dataclass(order=True) class Event\<close>. The field \<open>type\<close> is one of the two strings
  \<^verbatim>\<open>'order_arrival'\<close> and \<^verbatim>\<open>'order_completion'\<close>; the field \<open>data\<close> is the empty
  dictionary for an arrival and \<^verbatim>\<open>{'attendant': name}\<close> for a completion, so it is
  modelled as an optional attendant name. Only \<open>time\<close> takes part in comparisons
  (\<^verbatim>\<open>field(compare=False)\<close> on the other two), so \<^verbatim>\<open>Event.__lt__\<close> compares times.
\<close>

datatype event_type = order_arrival | order_completion

record event =
  time :: real
  type :: event_type
  data :: "string option"

definition Event_lt :: "event \<Rightarrow> event \<Rightarrow> bool" where
  "Event_lt e1 e2 = (time e1 < time e2)"

text \<open>The two exceptions the program can raise: a failed dictionary lookup and a pop
  from an empty list.\<close>

datatype error = KeyError | IndexError

subsection \<open>The event queue: heapq on a Python list\<close>

text \<open>
  The queue is a Python list handled by the standard library's \<^verbatim>\<open>heapq\<close>. Its
  functions are modelled as CPython writes them.
  \<^verbatim>\<open>_siftdown(heap, startpos, pos)\<close> moves the item at \<open>pos\<close> towards the root while it
  is smaller than its parent at \<open>(pos - 1) >> 1\<close>.
\<close>

function siftdown_loop :: "event list \<Rightarrow> event \<Rightarrow> nat \<Rightarrow> nat \<Rightarrow> event list" where
  "siftdown_loop heap newitem startpos pos =
     (if pos > startpos then
        (let parentpos = (pos - 1) div 2;
             parent = heap ! parentpos
         in if Event_lt newitem parent
            then siftdown_loop (heap[pos := parent]) newitem startpos parentpos
            else heap[pos := newitem])
      else heap[pos := newitem])"
  by pat_completeness auto
termination
  by (relation "measure (\<lambda>(heap, newitem, startpos, pos). pos)") auto

definition siftdown :: "event list \<Rightarrow> nat \<Rightarrow> nat \<Rightarrow> event list" where
  "siftdown heap startpos pos = siftdown_loop heap (heap ! pos) startpos pos"

text \<open>
  \<^verbatim>\<open>_siftup(heap, pos)\<close> first moves the smaller child up, level by level, until the
  hole reaches a leaf; it then puts the item into the leaf and lets \<^verbatim>\<open>_siftdown\<close>
  carry it back up to its place.
\<close>

function siftup_loop :: "event list \<Rightarrow> nat \<Rightarrow> event list \<times> nat" where
  "siftup_loop heap pos =
     (let endpos = length heap;
          childpos = 2 * pos + 1
      in if childpos < endpos then
           (let rightpos = childpos + 1;
                childpos = (if rightpos < endpos \<and> \<not> Event_lt (heap ! childpos) (heap ! rightpos)
                            then rightpos else childpos)
            in siftup_loop (heap[pos := heap ! childpos]) childpos)
         else (heap, pos))"
  by pat_completeness auto
termination
  by (relation "measure (\<lambda>(heap, pos). length heap - pos)") (auto simp: Let_def)

definition siftup :: "event list \<Rightarrow> nat \<Rightarrow> event list" where
  "siftup heap pos =
     (let newitem = heap ! pos;
          (heap', pos') = siftup_loop heap pos
      in siftdown (heap'[pos' := newitem]) pos pos')"

text \<open>\<^verbatim>\<open>heapq.heappush\<close>: append, then sift the new last item towards the root.\<close>

definition heappush :: "event list \<Rightarrow> event \<Rightarrow> event list" where
  "heappush heap item = siftdown (heap @ [item]) 0 (length (heap @ [item]) - 1)"

text \<open>
  \<^verbatim>\<open>heapq.heappop\<close>: \<^verbatim>\<open>heap.pop()\<close> raises IndexError on the empty list; otherwise
  the last item replaces the root, which is returned, and is sifted into place.
\<close>

definition heappop :: "event list \<Rightarrow> error + (event \<times> event list)" where
  "heappop heap =
     (if heap = [] then Inl IndexError
      else (let lastelt = last heap;
                heap' = butlast heap
            in if heap' \<noteq> [] then
                 (let returnitem = heap' ! 0;
                      heap'' = siftup (heap'[0 := lastelt]) 0
                  in Inr (returnitem, heap''))
               else Inr (lastelt, heap')))"

subsection \<open>Orchestrator\<close>

text \<open>
  \<^verbatim>\<open>random.random()\<close> reads a global generator. The model takes the generator's future
  draws as an infinite sequence; a draw returns the first one and the rest.
\<close>

type_synonym random_source = "nat \<Rightarrow> real"

definition random_random :: "random_source \<Rightarrow> real \<times> random_source" where
  "random_random rs = (rs 0, \<lambda>i. rs (Suc i))"

text \<open>
  The lines the handlers print: the time (printed with two decimals in the source,
  kept exact here) and, for an accepted or completed order, the attendant's name.
\<close>

datatype printed =
  Order_accepted real string
| Order_rejected real
| Order_completed real string

fun printed_time :: "printed \<Rightarrow> real" where
  "printed_time (Order_accepted t n) = t"
| "printed_time (Order_rejected t) = t"
| "printed_time (Order_completed t n) = t"

text \<open>
  \<^verbatim>\<open>class Orchestrator\<close>. The dictionary comprehension \<^verbatim>\<open>{a.name: a for a in attendants}\<close>
  inserts in list order; a repeated name keeps its first position and takes the later
  object, which is what \<^const>\<open>AList.update\<close> does.
\<close>

record orchestrator =
  attendants :: "(string \<times> attendant) list"
  event_queue :: "event list"
  current_time :: real
  processed :: int
  rejected :: int

definition Orchestrator_init :: "attendant list \<Rightarrow> orchestrator" where
  "Orchestrator_init as =
     \<lparr>attendants = fold (\<lambda>a d. AList.update (name a) a d) as [],
      event_queue = [],
      current_time = 0,
      processed = 0,
      rejected = 0\<rparr>"

definition add_order :: "orchestrator \<Rightarrow> real \<Rightarrow> orchestrator" where
  "add_order s arrival_time =
     s\<lparr>event_queue :=
         heappush (event_queue s) \<lparr>time = arrival_time, type = order_arrival, data = None\<rparr>\<rparr>"

text \<open>
  \<^verbatim>\<open>Orchestrator.update_attendant_status\<close>: \<^verbatim>\<open>self.attendants[name]\<close> raises KeyError
  for a name that is not a key, before anything is changed.
\<close>

definition update_attendant_status :: "orchestrator \<Rightarrow> string \<Rightarrow> string \<Rightarrow> error + orchestrator" where
  "update_attendant_status s n st =
     (case map_of (attendants s) n of
        None \<Rightarrow> Inl KeyError
      | Some a \<Rightarrow>
          (let a1 = a\<lparr>status := st\<rparr>;
               a2 = (if st = ''active'' then update_state a1 (current_time s) else a1)
           in Inr (s\<lparr>attendants := AList.update n a2 (attendants s)\<rparr>)))"

text \<open>
  The \<^verbatim>\<open>for\<close> loop of \<^verbatim>\<open>handle_order_arrival\<close>, over the dictionary's items in
  insertion order: every attendant is refreshed in place; one that can accept draws a
  random number and is appended to \<open>candidates\<close> as \<open>((len(active_orders), draw), name)\<close>.
  The result is the refreshed roster, the candidates and the remaining random source.
\<close>

fun scan_attendants ::
  "real \<Rightarrow> (string \<times> attendant) list \<Rightarrow> random_source \<Rightarrow>
     (string \<times> attendant) list \<times> ((nat \<times> real) \<times> string) list \<times> random_source" where
  "scan_attendants t [] rs = ([], [], rs)"
| "scan_attendants t ((n, a) # rest) rs =
     (let a' = update_state a t in
      if can_accept a' t then
        (let (r, rs1) = random_random rs;
             priority = (length (active_orders a'), r);
             (rest', candidates, rs2) = scan_attendants t rest rs1
         in ((n, a') # rest', (priority, n) # candidates, rs2))
      else
        (let (rest', candidates, rs1) = scan_attendants t rest rs
         in ((n, a') # rest', candidates, rs1)))"

text \<open>
  Python's \<^verbatim>\<open>min\<close> on a non-empty list: the first item is the current minimum, and a
  later item replaces it only when it is strictly smaller. Tuples compare
  lexicographically, which is the order of \<^typ>\<open>(nat \<times> real) \<times> string\<close> here.
\<close>

definition min_py :: "'a::linorder list \<Rightarrow> 'a" where
  "min_py xs = fold (\<lambda>item cur. if item < cur then item else cur) (tl xs) (hd xs)"

text \<open>
  \<^verbatim>\<open>Orchestrator.handle_order_arrival\<close>. \<open>best\<close> is a key of the roster (it was taken
  from it in the loop), so \<^verbatim>\<open>self.attendants[best]\<close> cannot raise.
\<close>

definition handle_order_arrival ::
  "random_source \<Rightarrow> orchestrator \<Rightarrow> printed \<times> random_source \<times> orchestrator" where
  "handle_order_arrival rs s =
     (let (atts, candidates, rs') = scan_attendants (current_time s) (attendants s) rs in
      if candidates \<noteq> [] then
        (let best = snd (min_py candidates);
             atts' = AList.map_entry best (\<lambda>a. start_order a (current_time s)) atts
         in (Order_accepted (current_time s) best, rs',
             s\<lparr>attendants := atts',
               processed := processed s + 1,
               event_queue :=
                 heappush (event_queue s)
                   \<lparr>time = current_time s + 5, type = order_completion, data = Some best\<rparr>\<rparr>))
      else
        (Order_rejected (current_time s), rs',
         s\<lparr>attendants := atts, rejected := rejected s + 1\<rparr>))"

text \<open>
  \<^verbatim>\<open>Orchestrator.handle_order_completion\<close>: the dictionary lookup raises KeyError for
  an unknown name. The source prints its line before the lookup; a call that raises is
  modelled by the error alone.
\<close>

definition handle_order_completion :: "orchestrator \<Rightarrow> string \<Rightarrow> error + (printed \<times> orchestrator)" where
  "handle_order_completion s attendant_name =
     (case map_of (attendants s) attendant_name of
        None \<Rightarrow> Inl KeyError
      | Some a \<Rightarrow>
          Inr (Order_completed (current_time s) attendant_name,
               s\<lparr>attendants :=
                   AList.update attendant_name (update_state a (current_time s)) (attendants s)\<rparr>))"

text \<open>
  One iteration of the \<^verbatim>\<open>while\<close> loop of \<^verbatim>\<open>process_events\<close>: pop the earliest event,
  set the clock to its time, dispatch on its type. \<^verbatim>\<open>event.data['attendant']\<close> raises
  KeyError when the key is missing.
\<close>

definition process_event ::
  "random_source \<Rightarrow> orchestrator \<Rightarrow> error + (printed \<times> random_source \<times> orchestrator)" where
  "process_event rs s =
     (case heappop (event_queue s) of
        Inl e \<Rightarrow> Inl e
      | Inr (event, q) \<Rightarrow>
          (let s1 = s\<lparr>event_queue := q, current_time := time event\<rparr> in
           case type event of
             order_arrival \<Rightarrow> Inr (handle_order_arrival rs s1)
           | order_completion \<Rightarrow>
               (case data event of
                  None \<Rightarrow> Inl KeyError
                | Some n \<Rightarrow>
                    (case handle_order_completion s1 n of
                       Inl e \<Rightarrow> Inl e
                     | Inr (out, s2) \<Rightarrow> Inr (out, rs, s2)))))"

text \<open>
  \<^verbatim>\<open>Orchestrator.process_events\<close>: the loop runs while the queue is not empty. The
  result is the list of lines printed, the remaining random source and the final
  state, or the exception that ended the run.
\<close>

function process_events ::
  "random_source \<Rightarrow> orchestrator \<Rightarrow> error + (printed list \<times> random_source \<times> orchestrator)" where
  "process_events rs s =
     (if event_queue s \<noteq> [] then
        (case process_event rs s of
           Inl e \<Rightarrow> Inl e
         | Inr (out, rs', s') \<Rightarrow>
             (case process_events rs' s' of
                Inl e \<Rightarrow> Inl e
              | Inr (outs, rs'', s'') \<Rightarrow> Inr (out # outs, rs'', s'')))
      else Inr ([], rs, s))"
  by pat_completeness auto

section \<open>Specification-level notions\<close>

text \<open>
  The work left in a queue: an arrival counts twice, since handling it may push one
  completion; a completion counts once.
\<close>

definition pending_work :: "event list \<Rightarrow> nat" where
  "pending_work q =
     (\<Sum>e\<leftarrow>q. case type e of order_arrival \<Rightarrow> 2 | order_completion \<Rightarrow> 1)"

text \<open>The heap invariant of \<^verbatim>\<open>heapq\<close>: no item is earlier than its parent.\<close>

definition is_heap :: "event list \<Rightarrow> bool" where
  "is_heap h = list_all (\<lambda>i. time (h ! ((i - 1) div 2)) \<le> time (h ! i)) [1..<length h]"

text \<open>
  Two weakened invariants for the sift loops. \<open>sift_inv h pos\<close>: the item at \<open>pos\<close> may
  be earlier than its parent, every other edge is in order, and the children of \<open>pos\<close>
  are not earlier than the parent of \<open>pos\<close>. \<open>hole_inv h pos\<close>: position \<open>pos\<close> is a
  hole whose content does not count.
\<close>

definition sift_inv :: "event list \<Rightarrow> nat \<Rightarrow> bool" where
  "sift_inv h pos =
     ((\<forall>i. 0 < i \<and> i < length h \<and> i \<noteq> pos \<longrightarrow> time (h ! ((i - 1) div 2)) \<le> time (h ! i)) \<and>
      (\<forall>c. 0 < pos \<and> 0 < c \<and> c < length h \<and> (c - 1) div 2 = pos \<longrightarrow>
           time (h ! ((pos - 1) div 2)) \<le> time (h ! c)))"

definition hole_inv :: "event list \<Rightarrow> nat \<Rightarrow> bool" where
  "hole_inv h pos =
     ((\<forall>i. 0 < i \<and> i < length h \<and> i \<noteq> pos \<and> (i - 1) div 2 \<noteq> pos \<longrightarrow>
           time (h ! ((i - 1) div 2)) \<le> time (h ! i)) \<and>
      (\<forall>c. 0 < pos \<and> 0 < c \<and> c < length h \<and> (c - 1) div 2 = pos \<longrightarrow>
           time (h ! ((pos - 1) div 2)) \<le> time (h ! c)))"

text \<open>The child that one round of \<^verbatim>\<open>_siftup\<close> moves up.\<close>

definition min_child :: "event list \<Rightarrow> nat \<Rightarrow> nat" where
  "min_child heap pos =
     (if 2 * pos + 2 < length heap \<and> \<not> Event_lt (heap ! (2 * pos + 1)) (heap ! (2 * pos + 2))
      then 2 * pos + 2 else 2 * pos + 1)"

text \<open>
  The spec's \<open>Worker.setStatus(newStatus, currentTime)\<close>, written from the spec's words:
  set the status and, when the new status is Active, refresh at once. The source has no
  such method; \<^verbatim>\<open>update_attendant_status\<close> does both steps itself.
\<close>

definition spec_setStatus :: "attendant \<Rightarrow> string \<Rightarrow> real \<Rightarrow> attendant" where
  "spec_setStatus a newStatus currentTime =
     (let a' = a\<lparr>status := newStatus\<rparr> in
      if newStatus = ''active'' then update_state a' currentTime else a')"

text \<open>
  The candidate set of an arrival at time \<open>t\<close>: every worker is refreshed, and those that
  can accept are kept, in roster order.
\<close>

definition candidate_set :: "real \<Rightarrow> (string \<times> attendant) list \<Rightarrow> (string \<times> attendant) list" where
  "candidate_set t atts =
     filter (\<lambda>(n, a). can_accept a t) (map (\<lambda>(n, a). (n, update_state a t)) atts)"

text \<open>
  What holds of the orchestrator in every state the public operations produce: the
  roster's keys are distinct, no worker holds more than two orders, the queue is a heap,
  and every queued completion names a worker of the roster.
\<close>

definition orch_inv :: "orchestrator \<Rightarrow> bool" where
  "orch_inv s =
     (distinct (map fst (attendants s)) \<and>
      list_all (\<lambda>(n, a). length (active_orders a) \<le> 2) (attendants s) \<and>
      is_heap (event_queue s) \<and>
      list_all (\<lambda>e. type e = order_arrival \<or>
                     (case data e of None \<Rightarrow> False | Some n \<Rightarrow> n \<in> set (map fst (attendants s))))
        (event_queue s))"

text \<open>
  The states reachable through the public operations: construction from a list of
  fresh attendants, \<^verbatim>\<open>add_order\<close>, \<^verbatim>\<open>update_attendant_status\<close> and
  \<^verbatim>\<open>process_events\<close>; \<open>run_step\<close> adds the states between two iterations of the event
  loop, and \<open>driver_push\<close> the direct push of a completion event for a worker of the
  roster, which the driver under \<^verbatim>\<open>__main__\<close> does.
\<close>

inductive reachable :: "orchestrator \<Rightarrow> bool" where
  new: "reachable (Orchestrator_init (map Attendant_init names))"
| submitArrival: "reachable s \<Longrightarrow> reachable (add_order s t)"
| setWorkerStatus: "reachable s \<Longrightarrow> update_attendant_status s n st = Inr s' \<Longrightarrow> reachable s'"
| run: "reachable s \<Longrightarrow> process_events rs s = Inr (outs, rs', s') \<Longrightarrow> reachable s'"
| run_step: "reachable s \<Longrightarrow> process_event rs s = Inr (out, rs', s') \<Longrightarrow> reachable s'"
| driver_push:
    "reachable s \<Longrightarrow> n \<in> set (map fst (attendants s)) \<Longrightarrow>
     reachable (s\<lparr>event_queue :=
                  heappush (event_queue s) \<lparr>time = t, type = order_completion, data = Some n\<rparr>\<rparr>)"

text \<open>The two lines an arrival can print, and the number of arrivals in a queue.\<close>

fun accepted_line :: "printed \<Rightarrow> bool" where
  "accepted_line (Order_accepted t n) = True"
| "accepted_line (Order_rejected t) = False"
| "accepted_line (Order_completed t n) = False"

fun rejected_line :: "printed \<Rightarrow> bool" where
  "rejected_line (Order_accepted t n) = False"
| "rejected_line (Order_rejected t) = True"
| "rejected_line (Order_completed t n) = False"

definition arrivals :: "event list \<Rightarrow> nat" where
  "arrivals q = length (filter (\<lambda>e. type e = order_arrival) q)"

text \<open>
  The events a run pops, in order, each with the state in which its handling leaves
  the orchestrator: the loop of \<^verbatim>\<open>process_events\<close> again, keeping what each iteration
  pops and produces. The list ends where the loop stops.
\<close>

function run_trace :: "random_source \<Rightarrow> orchestrator \<Rightarrow> (event \<times> orchestrator) list" where
  "run_trace rs s =
     (if event_queue s \<noteq> [] then
        (case heappop (event_queue s) of
           Inl e \<Rightarrow> []
         | Inr (event, q) \<Rightarrow>
             (case process_event rs s of
                Inl e \<Rightarrow> []
              | Inr (out, rs', s') \<Rightarrow> (event, s') # run_trace rs' s'))
      else [])"
  by pat_completeness auto

subsection \<open>Example states\<close>

text \<open>
  Two fresh attendants; the same with arrivals submitted at times 1, 0 and 2; one
  attendant with arrivals at 0 and 4, and the states after the first and the second
  iteration of the loop; two inactive attendants; an attendant holding one order while
  another is free; an attendant whose stored state is out of date; one attendant with
  one arrival submitted at time -1.
\<close>

definition demo_roster :: orchestrator where
  "demo_roster = Orchestrator_init [Attendant_init ''Alice'', Attendant_init ''Bob'']"

definition demo :: orchestrator where
  "demo = add_order (add_order (add_order
            (Orchestrator_init (map Attendant_init [''Alice'', ''Bob''])) 1) 0) 2"

definition alice0 :: orchestrator where
  "alice0 = add_order (add_order (Orchestrator_init (map Attendant_init [''Alice''])) 0) 4"

definition alice1 :: orchestrator where
  "alice1 =
     \<lparr>attendants = [(''Alice'', \<lparr>name = ''Alice'', active_orders = [0], status = ''active'',
                                 next_available = 0\<rparr>)],
      event_queue = [\<lparr>time = 4, type = order_arrival, data = None\<rparr>,
                     \<lparr>time = 5, type = order_completion, data = Some ''Alice''\<rparr>],
      current_time = 0, processed = 1, rejected = 0\<rparr>"

definition alice2 :: orchestrator where
  "alice2 =
     \<lparr>attendants = [(''Alice'', \<lparr>name = ''Alice'', active_orders = [0, 4], status = ''active'',
                                 next_available = 4\<rparr>)],
      event_queue = [\<lparr>time = 5, type = order_completion, data = Some ''Alice''\<rparr>,
                     \<lparr>time = 9, type = order_completion, data = Some ''Alice''\<rparr>],
      current_time = 4, processed = 2, rejected = 0\<rparr>"

definition closed_shop :: orchestrator where
  "closed_shop =
     \<lparr>attendants = [(''Alice'', \<lparr>name = ''Alice'', active_orders = [], status = ''inactive'',
                                 next_available = 0\<rparr>),
                    (''Bob'', \<lparr>name = ''Bob'', active_orders = [], status = ''inactive'',
                               next_available = 0\<rparr>)],
      event_queue = [], current_time = 0, processed = 0, rejected = 0\<rparr>"

definition busy_alice :: orchestrator where
  "busy_alice =
     \<lparr>attendants = [(''Alice'', \<lparr>name = ''Alice'', active_orders = [0], status = ''active'',
                                 next_available = 3\<rparr>),
                    (''Bob'', \<lparr>name = ''Bob'', active_orders = [], status = ''active'',
                               next_available = 0\<rparr>)],
      event_queue = [\<lparr>time = 5, type = order_completion, data = Some ''Alice''\<rparr>],
      current_time = 4, processed = 1, rejected = 0\<rparr>"

definition stale :: orchestrator where
  "stale =
     \<lparr>attendants = [(''Alice'', \<lparr>name = ''Alice'', active_orders = [0], status = ''active'',
                                 next_available = 3\<rparr>)],
      event_queue = [\<lparr>time = 9, type = order_arrival, data = None\<rparr>],
      current_time = 7, processed = 1, rejected = 0\<rparr>"

definition early :: orchestrator where
  "early = add_order (Orchestrator_init (map Attendant_init [''Alice''])) (- 1)"

section \<open>The event queue is a heap\<close>

declare siftdown_loop.simps [simp del] siftup_loop.simps [simp del]

lemma parent_less: "0 < i \<Longrightarrow> (i - 1) div 2 < (i::nat)"
  by arith

lemma is_heap_iff:
  "is_heap h \<longleftrightarrow> (\<forall>i. 0 < i \<and> i < length h \<longrightarrow> time (h ! ((i - 1) div 2)) \<le> time (h ! i))"
  by (auto simp: is_heap_def list_all_iff)

lemma length_siftdown_loop: "length (siftdown_loop heap x sp pos) = length heap"
  by (induction heap x sp pos rule: siftdown_loop.induct)
     (subst siftdown_loop.simps, simp add: Let_def)

lemma mset_swap_hole:
  assumes "pos < length heap" "p < length heap" "p \<noteq> pos"
  shows "mset (heap[pos := heap ! p, p := x]) = mset (heap[pos := x])"
proof -
  let ?H = "heap[pos := x]"
  have "mset (?H[pos := ?H ! p, p := ?H ! pos]) = mset ?H"
    using assms by (intro mset_swap) simp_all
  moreover have "?H[pos := ?H ! p, p := ?H ! pos] = heap[pos := heap ! p, p := x]"
    using assms by simp
  ultimately show ?thesis by simp
qed

lemma mset_siftdown_loop:
  "pos < length heap \<Longrightarrow> mset (siftdown_loop heap x sp pos) = mset (heap[pos := x])"
proof (induction heap x sp pos rule: siftdown_loop.induct)
  case (1 heap newitem startpos pos)
  show ?case
  proof (cases "pos > startpos \<and> Event_lt newitem (heap ! ((pos - 1) div 2))")
    case True
    then have lt: "(pos - 1) div 2 < pos" by auto
    have "mset (siftdown_loop (heap[pos := heap ! ((pos - 1) div 2)]) newitem startpos ((pos - 1) div 2))
          = mset (heap[pos := heap ! ((pos - 1) div 2), (pos - 1) div 2 := newitem])"
      using 1 True lt by simp
    also have "\<dots> = mset (heap[pos := newitem])"
      using 1(2) lt by (intro mset_swap_hole) auto
    finally show ?thesis
      using True by (subst siftdown_loop.simps) (simp add: Let_def)
  next
    case False
    then show ?thesis
      by (subst siftdown_loop.simps) (auto simp add: Let_def)
  qed
qed

lemma sift_inv_swap:
  assumes inv: "sift_inv H pos" and pos: "0 < pos" "pos < length H"
    and lt: "time (H ! pos) < time (H ! ((pos - 1) div 2))"
  shows "sift_inv (H[pos := H ! ((pos - 1) div 2), (pos - 1) div 2 := H ! pos]) ((pos - 1) div 2)"
proof -
  let ?p = "(pos - 1) div 2"
  let ?H' = "H[pos := H ! ?p, ?p := H ! pos]"
  have p: "?p < pos" using pos by auto
  have edge: "\<And>i. 0 < i \<Longrightarrow> i < length H \<Longrightarrow> i \<noteq> pos \<Longrightarrow> time (H ! ((i - 1) div 2)) \<le> time (H ! i)"
    using inv by (simp add: sift_inv_def)
  have grand: "\<And>c. 0 < c \<Longrightarrow> c < length H \<Longrightarrow> (c - 1) div 2 = pos \<Longrightarrow> time (H ! ?p) \<le> time (H ! c)"
    using inv pos by (simp add: sift_inv_def)
  have nth: "\<And>i. i < length H \<Longrightarrow> ?H' ! i = (if i = ?p then H ! pos else if i = pos then H ! ?p else H ! i)"
    using p pos by (simp add: nth_list_update)
  have A: "time (?H' ! ((i - 1) div 2)) \<le> time (?H' ! i)"
    if i: "0 < i" "i < length H" "i \<noteq> ?p" for i
  proof -
    have pi: "(i - 1) div 2 < length H" using i by auto
    consider "i = pos" | "i \<noteq> pos" "(i - 1) div 2 = pos" | "i \<noteq> pos" "(i - 1) div 2 = ?p"
      | "i \<noteq> pos" "(i - 1) div 2 \<noteq> pos" "(i - 1) div 2 \<noteq> ?p" by blast
    then show ?thesis
    proof cases
      case 1
      then show ?thesis using lt p pos by (simp add: nth)
    next
      case 2
      then show ?thesis using grand[of i] i p pi by (simp add: nth)
    next
      case 3
      then show ?thesis using edge[of i] i lt pi by (simp add: nth)
    next
      case 4
      then show ?thesis using edge[of i] i pi by (simp add: nth)
    qed
  qed
  have B: "time (?H' ! ((?p - 1) div 2)) \<le> time (?H' ! c)"
    if c: "0 < ?p" "0 < c" "c < length H" "(c - 1) div 2 = ?p" for c
  proof -
    have pp: "(?p - 1) div 2 < ?p" using c(1) by (rule parent_less)
    have e1: "time (H ! ((?p - 1) div 2)) \<le> time (H ! ?p)"
      using edge[of ?p] c p pos by auto
    have cp: "c \<noteq> ?p" using c by auto
    show ?thesis
    proof (cases "c = pos")
      case True
      then show ?thesis using e1 pp p pos by (simp add: nth)
    next
      case False
      then have "time (H ! ?p) \<le> time (H ! c)" using edge[of c] c by auto
      then show ?thesis using e1 pp p pos c cp False by (simp add: nth)
    qed
  qed
  show ?thesis
    unfolding sift_inv_def using A B by auto
qed

lemma is_heap_siftdown_loop:
  "pos < length heap \<Longrightarrow> sift_inv (heap[pos := x]) pos \<Longrightarrow> is_heap (siftdown_loop heap x 0 pos)"
proof (induction heap x "0::nat" pos rule: siftdown_loop.induct)
  case (1 heap newitem pos)
  let ?H = "heap[pos := newitem]"
  let ?p = "(pos - 1) div 2"
  show ?case
  proof (cases "pos > 0")
    case False
    then have "is_heap ?H" using 1(3) by (auto simp: is_heap_iff sift_inv_def)
    then show ?thesis using False by (subst siftdown_loop.simps) simp
  next
    case pos: True
    then have p: "?p < pos" by auto
    show ?thesis
    proof (cases "Event_lt newitem (heap ! ?p)")
      case True
      have "sift_inv (?H[pos := ?H ! ?p, ?p := ?H ! pos]) ?p"
        using 1(2,3) pos p True by (intro sift_inv_swap) (auto simp: Event_lt_def)
      moreover have "?H[pos := ?H ! ?p, ?p := ?H ! pos] = (heap[pos := heap ! ?p])[?p := newitem]"
        using 1(2) p by simp
      ultimately have "is_heap (siftdown_loop (heap[pos := heap ! ?p]) newitem 0 ?p)"
        using 1(1)[OF pos refl refl True] 1(2) p by simp
      then show ?thesis using pos True by (subst siftdown_loop.simps) (simp add: Let_def)
    next
      case False
      have "time (?H ! ((i - 1) div 2)) \<le> time (?H ! i)" if "0 < i" "i < length ?H" for i
      proof (cases "i = pos")
        case True
        then show ?thesis using False p 1(2) by (simp add: Event_lt_def)
      next
        case False
        then show ?thesis using 1(3) that by (simp add: sift_inv_def)
      qed
      then have "is_heap ?H" by (simp add: is_heap_iff)
      then show ?thesis using pos False by (subst siftdown_loop.simps) (simp add: Let_def)
    qed
  qed
qed

lemma siftup_loop_rec:
  "2 * pos + 1 < length heap \<Longrightarrow>
     siftup_loop heap pos = siftup_loop (heap[pos := heap ! min_child heap pos]) (min_child heap pos)"
  by (subst siftup_loop.simps) (simp add: Let_def min_child_def)

lemma siftup_loop_stop: "\<not> 2 * pos + 1 < length heap \<Longrightarrow> siftup_loop heap pos = (heap, pos)"
  by (subst siftup_loop.simps) (simp add: Let_def)

lemma siftup_loop_induct:
  assumes "\<And>heap pos. (2 * pos + 1 < length heap \<Longrightarrow>
              P (heap[pos := heap ! min_child heap pos]) (min_child heap pos)) \<Longrightarrow> P heap pos"
  shows "P heap pos"
proof (induction heap pos rule: siftup_loop.induct)
  case (1 heap pos)
  show ?case
  proof (rule assms)
    assume "2 * pos + 1 < length heap"
    then show "P (heap[pos := heap ! min_child heap pos]) (min_child heap pos)"
      using 1[OF refl refl _ refl refl] by (auto simp add: min_child_def split: if_splits)
  qed
qed

lemma min_child_bounds:
  "2 * pos + 1 < length heap \<Longrightarrow>
     min_child heap pos < length heap \<and> pos < min_child heap pos \<and>
     (min_child heap pos - 1) div 2 = pos"
  by (auto simp: min_child_def)

lemma min_child_le:
  assumes "2 * pos + 1 < length heap" "c < length heap" "0 < c" "(c - 1) div 2 = pos"
  shows "time (heap ! min_child heap pos) \<le> time (heap ! c)"
proof -
  have "c = 2 * pos + 1 \<or> c = 2 * pos + 2" using assms(3,4) by auto
  then show ?thesis using assms(1,2) by (auto simp: min_child_def Event_lt_def)
qed

lemma siftup_loop_length:
  "siftup_loop heap pos = (heap', pos') \<Longrightarrow> pos < length heap \<Longrightarrow>
     length heap' = length heap \<and> pos' < length heap \<and> length heap \<le> 2 * pos' + 1"
proof (induction heap pos rule: siftup_loop_induct)
  case (1 heap pos)
  show ?case
  proof (cases "2 * pos + 1 < length heap")
    case False
    then show ?thesis using 1(2,3) by (simp add: siftup_loop_stop)
  next
    case True
    then show ?thesis
      using 1(1)[OF True] 1(2) min_child_bounds[OF True] by (simp add: siftup_loop_rec)
  qed
qed

lemma mset_siftup_loop:
  "siftup_loop heap pos = (heap', pos') \<Longrightarrow> pos < length heap \<Longrightarrow>
     mset (heap'[pos' := x]) = mset (heap[pos := x])"
proof (induction heap pos rule: siftup_loop_induct)
  case (1 heap pos)
  show ?case
  proof (cases "2 * pos + 1 < length heap")
    case False
    then show ?thesis using 1(2,3) by (simp add: siftup_loop_stop)
  next
    case True
    let ?c = "min_child heap pos"
    have c: "?c < length heap" "pos < ?c" using min_child_bounds[OF True] by auto
    have "mset (heap'[pos' := x]) = mset (heap[pos := heap ! ?c, ?c := x])"
      using 1(1)[OF True] 1(2) True c by (simp add: siftup_loop_rec)
    also have "\<dots> = mset (heap[pos := x])"
      using c 1(3) by (intro mset_swap_hole) auto
    finally show ?thesis .
  qed
qed

lemma hole_inv_siftup_loop:
  "siftup_loop heap pos = (heap', pos') \<Longrightarrow> pos < length heap \<Longrightarrow> hole_inv heap pos \<Longrightarrow>
     hole_inv heap' pos'"
proof (induction heap pos rule: siftup_loop_induct)
  case (1 heap pos)
  show ?case
  proof (cases "2 * pos + 1 < length heap")
    case False
    then show ?thesis using 1(2,4) by (simp add: siftup_loop_stop)
  next
    case True
    let ?c = "min_child heap pos"
    let ?h = "heap[pos := heap ! ?c]"
    have c: "?c < length heap" "pos < ?c" "(?c - 1) div 2 = pos"
      using min_child_bounds[OF True] by auto
    have edge: "\<And>i. 0 < i \<Longrightarrow> i < length heap \<Longrightarrow> i \<noteq> pos \<Longrightarrow> (i - 1) div 2 \<noteq> pos \<Longrightarrow>
        time (heap ! ((i - 1) div 2)) \<le> time (heap ! i)"
      using 1(4) by (simp add: hole_inv_def)
    have grand: "\<And>d. 0 < pos \<Longrightarrow> 0 < d \<Longrightarrow> d < length heap \<Longrightarrow> (d - 1) div 2 = pos \<Longrightarrow>
        time (heap ! ((pos - 1) div 2)) \<le> time (heap ! d)"
      using 1(4) by (simp add: hole_inv_def)
    have A: "time (?h ! ((i - 1) div 2)) \<le> time (?h ! i)"
      if i: "0 < i" "i < length heap" "i \<noteq> ?c" "(i - 1) div 2 \<noteq> ?c" for i
    proof -
      have pl: "(i - 1) div 2 < i" using i(1) by (rule parent_less)
      consider (hole) "i = pos" | (child) "i \<noteq> pos" "(i - 1) div 2 = pos"
        | (other) "i \<noteq> pos" "(i - 1) div 2 \<noteq> pos"
        by blast
      then show ?thesis
      proof cases
        case hole
        then show ?thesis using grand[of ?c] c i pl by (simp add: nth_list_update)
      next
        case child
        then show ?thesis using min_child_le[OF True i(2) i(1)] i pl by (simp add: nth_list_update)
      next
        case other
        then show ?thesis using edge[of i] i pl by (simp add: nth_list_update)
      qed
    qed
    have B: "time (?h ! ((?c - 1) div 2)) \<le> time (?h ! d)"
      if d: "0 < d" "d < length heap" "(d - 1) div 2 = ?c" for d
    proof -
      have "d \<noteq> pos" "d \<noteq> ?c" using d c parent_less[OF d(1)] by auto
      moreover have "time (heap ! ?c) \<le> time (heap ! d)"
        using edge[of d] d c \<open>d \<noteq> pos\<close> by auto
      ultimately show ?thesis using c 1(3) by (simp add: nth_list_update)
    qed
    have "hole_inv ?h ?c"
      unfolding hole_inv_def using A B by auto
    then show ?thesis
      using 1(1)[OF True] 1(2) c by (simp add: siftup_loop_rec[OF True])
  qed
qed

lemma is_heap_root_le:
  assumes "is_heap h" "i < length h"
  shows "time (h ! 0) \<le> time (h ! i)"
  using assms(2)
proof (induction i rule: less_induct)
  case (less i)
  show ?case
  proof (cases "i = 0")
    case True
    then show ?thesis by simp
  next
    case False
    then have p: "(i - 1) div 2 < i" by (intro parent_less) simp
    have "time (h ! 0) \<le> time (h ! ((i - 1) div 2))"
      using less p by simp
    also have "\<dots> \<le> time (h ! i)"
      using assms(1) less(2) False by (simp add: is_heap_iff)
    finally show ?thesis .
  qed
qed

lemma mset_heappush: "mset (heappush heap item) = add_mset item (mset heap)"
  by (simp add: heappush_def siftdown_def mset_siftdown_loop)

lemma length_heappush: "length (heappush heap item) = Suc (length heap)"
  by (simp add: heappush_def siftdown_def length_siftdown_loop)

lemma is_heap_heappush:
  assumes "is_heap heap"
  shows "is_heap (heappush heap item)"
proof -
  let ?H = "heap @ [item]"
  have "time (?H ! ((i - 1) div 2)) \<le> time (?H ! i)"
    if i: "0 < i" "i < length ?H" "i \<noteq> length heap" for i
  proof -
    have "i < length heap" using i by simp
    moreover have "(i - 1) div 2 < length heap" using calculation parent_less[OF i(1)] by simp
    ultimately show ?thesis using assms i(1) by (simp add: is_heap_iff nth_append)
  qed
  moreover have "(c - 1) div 2 \<noteq> length heap" if "0 < c" "c < length ?H" for c
    using that by auto
  ultimately have "sift_inv (?H[length heap := item]) (length heap)"
    unfolding sift_inv_def by auto
  then have "is_heap (siftdown_loop ?H item 0 (length heap))"
    by (intro is_heap_siftdown_loop) simp_all
  then show ?thesis by (simp add: heappush_def siftdown_def)
qed

lemma heappop_empty: "heappop [] = Inl IndexError"
  by (simp add: heappop_def)

lemma heappop_nonempty: "heap \<noteq> [] \<Longrightarrow> \<exists>x heap'. heappop heap = Inr (x, heap')"
  by (simp add: heappop_def Let_def)

lemma mset_siftup: "pos < length heap \<Longrightarrow> mset (siftup heap pos) = mset heap"
proof -
  assume pos: "pos < length heap"
  obtain heap' pos' where sl: "siftup_loop heap pos = (heap', pos')" by force
  have len: "length heap' = length heap" "pos' < length heap"
    using siftup_loop_length[OF sl pos] by auto
  have "mset (siftup heap pos) = mset (heap'[pos' := heap ! pos])"
    using len by (simp add: siftup_def sl siftdown_def mset_siftdown_loop Let_def)
  also have "\<dots> = mset (heap[pos := heap ! pos])"
    using sl pos by (rule mset_siftup_loop)
  finally show ?thesis by simp
qed

lemma is_heap_siftup_root:
  assumes "hole_inv heap 0" "heap \<noteq> []"
  shows "is_heap (siftup heap 0)"
proof -
  have pos: "0 < length heap" using assms(2) by simp
  obtain heap' pos' where sl: "siftup_loop heap 0 = (heap', pos')" by force
  have len: "length heap' = length heap" "pos' < length heap" "length heap \<le> 2 * pos' + 1"
    using siftup_loop_length[OF sl pos] by auto
  have hi: "hole_inv heap' pos'"
    using sl pos assms(1) by (rule hole_inv_siftup_loop)
  let ?H = "heap'[pos' := heap ! 0]"
  have leaf: "(i - 1) div 2 \<noteq> pos'" if "0 < i" "i < length heap'" for i
    using that len by auto
  have "time (?H ! ((i - 1) div 2)) \<le> time (?H ! i)"
    if i: "0 < i" "i < length ?H" "i \<noteq> pos'" for i
  proof -
    have "(i - 1) div 2 \<noteq> pos'" using leaf i by simp
    moreover have "time (heap' ! ((i - 1) div 2)) \<le> time (heap' ! i)"
      using hi i calculation by (simp add: hole_inv_def)
    ultimately show ?thesis using i by (simp add: nth_list_update)
  qed
  moreover have "(c - 1) div 2 \<noteq> pos'" if "0 < c" "c < length ?H" for c
    using leaf that by simp
  ultimately have "sift_inv (?H[pos' := heap ! 0]) pos'"
    unfolding sift_inv_def by auto
  then have "is_heap (siftdown_loop ?H (heap ! 0) 0 pos')"
    using len by (intro is_heap_siftdown_loop) simp_all
  then show ?thesis using len by (simp add: siftup_def sl siftdown_def Let_def)
qed

lemma mset_heappop:
  assumes "heappop heap = Inr (x, heap')"
  shows "mset heap = add_mset x (mset heap')"
proof (cases "heap = []")
  case True
  then show ?thesis using assms by (simp add: heappop_def)
next
  case ne: False
  then have snoc: "heap = butlast heap @ [last heap]" by simp
  show ?thesis
  proof (cases "butlast heap = []")
    case True
    then show ?thesis using assms ne snoc by (auto simp: heappop_def Let_def)
  next
    case False
    then have x: "x = butlast heap ! 0" and h': "heap' = siftup ((butlast heap)[0 := last heap]) 0"
      using assms ne by (auto simp: heappop_def Let_def)
    have "mset heap' = mset ((butlast heap)[0 := last heap])"
      unfolding h' using False by (intro mset_siftup) (simp only: length_list_update length_greater_0_conv simp_thms)
    moreover obtain b bs where "butlast heap = b # bs"
      using False by (cases "butlast heap") auto
    ultimately have "add_mset x (mset heap') = add_mset (last heap) (mset (butlast heap))"
      using x by simp
    also have "\<dots> = mset heap" by (subst (2) snoc) simp
    finally show ?thesis by simp
  qed
qed

lemma is_heap_heappop:
  assumes "heappop heap = Inr (x, heap')" "is_heap heap"
  shows "is_heap heap'"
proof (cases "heap = []")
  case True
  then show ?thesis using assms by (simp add: heappop_def)
next
  case ne: False
  show ?thesis
  proof (cases "butlast heap = []")
    case True
    then show ?thesis using assms ne by (auto simp: heappop_def Let_def is_heap_def)
  next
    case False
    then have h': "heap' = siftup ((butlast heap)[0 := last heap]) 0"
      using assms ne by (auto simp: heappop_def Let_def)
    have "hole_inv ((butlast heap)[0 := last heap]) 0"
      using assms(2) by (auto simp: hole_inv_def is_heap_iff nth_butlast nth_list_update)
    then show ?thesis unfolding h' using False by (intro is_heap_siftup_root) simp_all
  qed
qed

lemma heappop_min:
  assumes "heappop heap = Inr (x, heap')" "is_heap heap" "y \<in> set heap'"
  shows "time x \<le> time y"
proof -
  have ne: "heap \<noteq> []" using assms(1) by (auto simp: heappop_def)
  have x: "x = heap ! 0"
    using assms(1) ne by (cases "butlast heap = []")
      (auto simp: heappop_def Let_def nth_butlast last_conv_nth butlast_conv_take split: if_splits)
  have "y \<in># mset heap" using mset_heappop[OF assms(1)] assms(3) by simp
  then have "y \<in> set heap" by simp
  then obtain i where "i < length heap" "heap ! i = y" by (auto simp: in_set_conv_nth)
  then show ?thesis using is_heap_root_le[OF assms(2), of i] x by simp
qed

section \<open>The event loop terminates\<close>

lemma pending_work_mset:
  "pending_work q = sum_mset (image_mset (\<lambda>e. case type e of order_arrival \<Rightarrow> 2 | order_completion \<Rightarrow> 1) (mset q))"
  by (simp add: pending_work_def sum_mset_sum_list[symmetric])

lemma event_queue_handle_order_arrival:
  "handle_order_arrival rs s = (out, rs', s') \<Longrightarrow>
     event_queue s' = event_queue s \<or>
     (\<exists>best. event_queue s' = heappush (event_queue s)
        \<lparr>time = current_time s + 5, type = order_completion, data = Some best\<rparr>)"
  by (auto simp: handle_order_arrival_def Let_def split: prod.splits if_splits)

lemma event_queue_handle_order_completion:
  "handle_order_completion s n = Inr (out, s') \<Longrightarrow> event_queue s' = event_queue s"
  by (auto simp: handle_order_completion_def split: option.splits)

lemma process_event_decreases:
  assumes "process_event rs s = Inr (out, rs', s')"
  shows "pending_work (event_queue s') < pending_work (event_queue s)"
proof -
  obtain event q where pop: "heappop (event_queue s) = Inr (event, q)"
    using assms by (auto simp: process_event_def split: sum.splits)
  have w: "pending_work (event_queue s) =
      (case type event of order_arrival \<Rightarrow> 2 | order_completion \<Rightarrow> 1) + pending_work q"
    by (simp add: pending_work_mset mset_heappop[OF pop])
  let ?s1 = "s\<lparr>event_queue := q, current_time := time event\<rparr>"
  show ?thesis
  proof (cases "type event")
    case order_arrival
    then have "handle_order_arrival rs ?s1 = (out, rs', s')"
      using assms pop by (simp add: process_event_def)
    from event_queue_handle_order_arrival[OF this]
    have "pending_work (event_queue s') \<le> 1 + pending_work q"
      by (auto simp: pending_work_mset mset_heappush)
    then show ?thesis using w order_arrival by simp
  next
    case order_completion
    then obtain n where "handle_order_completion ?s1 n = Inr (out, s')"
      using assms pop by (auto simp: process_event_def split: option.splits sum.splits)
    from event_queue_handle_order_completion[OF this]
    show ?thesis using w order_completion by simp
  qed
qed

termination process_events
  by (relation "measure (\<lambda>(rs, s). pending_work (event_queue s))")
     (auto dest: process_event_decreases)

declare process_events.simps [simp del]

termination run_trace
  by (relation "measure (\<lambda>(rs, s). pending_work (event_queue s))")
     (auto dest: process_event_decreases)

declare run_trace.simps [simp del]

section \<open>The arrival handler\<close>

lemma update_state_fields:
  "name (update_state a c) = name a"
  "status (update_state a c) = status a"
  "active_orders (update_state a c) = filter (\<lambda>t. t + 5 > c) (active_orders a)"
  by (simp_all add: update_state_def Let_def)

lemma candidate_set_Nil [simp]: "candidate_set t [] = []"
  by (simp add: candidate_set_def)

lemma candidate_set_Cons:
  "candidate_set t ((n, a) # rest) =
     (if can_accept (update_state a t) t then (n, update_state a t) # candidate_set t rest
      else candidate_set t rest)"
  by (simp add: candidate_set_def)

lemma scan_attendants_eq:
  "scan_attendants t atts rs =
     (map (\<lambda>(n, a). (n, update_state a t)) atts,
      map (\<lambda>(i, (n, a)). ((length (active_orders a), rs i), n)) (enumerate 0 (candidate_set t atts)),
      \<lambda>i. rs (i + length (candidate_set t atts)))"
proof (induction atts arbitrary: rs)
  case Nil
  show ?case by simp
next
  case (Cons p rest)
  obtain n a where p: "p = (n, a)" by (cases p)
  have shift: "map (\<lambda>(i, (n, a)). ((length (active_orders a), rs (Suc i)), n)) (enumerate 0 xs) =
        map (\<lambda>(i, (n, a)). ((length (active_orders a), rs i), n)) (enumerate (Suc 0) xs)"
    for xs :: "(string \<times> attendant) list"
    by (simp add: enumerate_Suc_eq split_def)
  show ?case
    by (simp add: p Cons.IH candidate_set_Cons random_random_def Let_def shift)
qed

lemma min_py_eq_Min: "xs \<noteq> [] \<Longrightarrow> min_py xs = Min (set xs)"
proof -
  assume "xs \<noteq> []"
  then obtain y ys where xs: "xs = y # ys" by (cases xs) auto
  have "(\<lambda>item cur. if item < cur then item else cur) = (min :: 'a \<Rightarrow> 'a \<Rightarrow> 'a)"
    by (intro ext) (auto simp: min_def)
  then have "min_py xs = fold min ys y" by (simp add: min_py_def xs)
  also have "\<dots> = Min (set (y # ys))" by (rule Min.set_eq_fold[symmetric])
  finally show ?thesis by (simp add: xs)
qed

lemma map_entry_eq_update:
  "map_of xs k = Some v \<Longrightarrow> AList.map_entry k f xs = AList.update k (f v) xs"
  by (induction xs) (auto split: if_splits)

lemma handle_order_arrival_reject:
  assumes "candidate_set (current_time s) (attendants s) = []"
  shows "handle_order_arrival rs s =
           (Order_rejected (current_time s), rs,
            s\<lparr>attendants := map (\<lambda>(n, a). (n, update_state a (current_time s))) (attendants s),
              rejected := rejected s + 1\<rparr>)"
  using assms by (simp add: handle_order_arrival_def scan_attendants_eq)

lemma handle_order_arrival_accept:
  assumes "distinct (map fst (attendants s))"
    and "cs = candidate_set (current_time s) (attendants s)"
    and "cs \<noteq> []"
  shows "\<exists>k<length cs.
           handle_order_arrival rs s =
             (Order_accepted (current_time s) (fst (cs ! k)), (\<lambda>i. rs (i + length cs)),
              s\<lparr>attendants :=
                  AList.update (fst (cs ! k)) (start_order (snd (cs ! k)) (current_time s))
                    (map (\<lambda>(n, a). (n, update_state a (current_time s))) (attendants s)),
                processed := processed s + 1,
                event_queue := heappush (event_queue s)
                  \<lparr>time = current_time s + 5, type = order_completion,
                    data = Some (fst (cs ! k))\<rparr>\<rparr>) \<and>
           (\<forall>j<length cs. (length (active_orders (snd (cs ! k))), rs k)
                         \<le> (length (active_orders (snd (cs ! j))), rs j))"
proof -
  let ?t = "current_time s"
  let ?refreshed = "map (\<lambda>(n, a). (n, update_state a ?t)) (attendants s)"
  let ?f = "\<lambda>(i, (n, a)). ((length (active_orders a), rs i), n)"
  let ?cands = "map ?f (enumerate 0 cs)"
  have ne: "?cands \<noteq> []" using assms(3) by (cases cs) simp_all
  have "min_py ?cands \<in> set ?cands"
    using ne by (simp only: min_py_eq_Min[OF ne]) (intro Min_in, simp_all)
  then obtain k where k: "k < length cs" "min_py ?cands = ?f (k, cs ! k)"
    by (auto simp: in_set_enumerate_eq image_iff)
  have least: "?f (k, cs ! k) \<le> ?f (j, cs ! j)" if "j < length cs" for j
  proof -
    have "?f (j, cs ! j) \<in> set ?cands"
      using that by (auto simp: in_set_enumerate_eq image_iff intro!: bexI[of _ "(j, cs ! j)"])
    then have "Min (set ?cands) \<le> ?f (j, cs ! j)" by (intro Min_le) simp_all
    then show ?thesis using k(2) min_py_eq_Min[OF ne] by simp
  qed
  have pair: "(length (active_orders (snd (cs ! k))), rs k) \<le> (length (active_orders (snd (cs ! j))), rs j)"
    if "j < length cs" for j
    using least[OF that] by (auto simp: split_def less_eq_prod_def)
  have "cs ! k \<in> set ?refreshed"
    using k(1) nth_mem[of k cs] by (auto simp: assms(2) candidate_set_def)
  moreover have "distinct (map fst ?refreshed)"
    using assms(1) by (simp add: comp_def split_def)
  ultimately have look: "map_of ?refreshed (fst (cs ! k)) = Some (snd (cs ! k))"
    by (simp add: map_of_eq_Some_iff)
  have best: "snd (min_py ?cands) = fst (cs ! k)"
    unfolding k(2) by (simp add: split_def)
  have "handle_order_arrival rs s =
      (Order_accepted ?t (fst (cs ! k)), (\<lambda>i. rs (i + length cs)),
       s\<lparr>attendants := AList.update (fst (cs ! k)) (start_order (snd (cs ! k)) ?t) ?refreshed,
         processed := processed s + 1,
         event_queue := heappush (event_queue s)
            \<lparr>time = ?t + 5, type = order_completion, data = Some (fst (cs ! k))\<rparr>\<rparr>)"
    using ne best map_entry_eq_update[OF look]
    by (simp add: handle_order_arrival_def scan_attendants_eq assms(2)[symmetric] Let_def)
  then show ?thesis using k(1) pair by (intro exI[of _ k]) simp
qed

lemma candidate_can_accept:
  "c \<in> set (candidate_set t atts) \<Longrightarrow>
     c \<in> set (map (\<lambda>(n, a). (n, update_state a t)) atts) \<and> can_accept (snd c) t"
  by (auto simp: candidate_set_def)

lemma length_active_start_order:
  "length (active_orders (start_order a t)) = Suc (length (active_orders a))"
  by (simp add: start_order_def)

lemma length_active_update_state:
  "length (active_orders (update_state a t)) \<le> length (active_orders a)"
  by (simp add: update_state_fields)

lemma handle_order_arrival_effect:
  assumes "handle_order_arrival rs s = (out, rs', s')"
  shows "printed_time out = current_time s \<and> current_time s' = current_time s \<and>
         \<not> rejected_line out = accepted_line out \<and>
         (candidate_set (current_time s) (attendants s) \<noteq> [] \<longleftrightarrow> accepted_line out) \<and>
         processed s' = (if accepted_line out then processed s + 1 else processed s) \<and>
         rejected s' = (if accepted_line out then rejected s else rejected s + 1) \<and>
         (if accepted_line out
          then \<exists>best. event_queue s' = heappush (event_queue s)
                  \<lparr>time = current_time s + 5, type = order_completion, data = Some best\<rparr>
          else event_queue s' = event_queue s)"
proof (cases "candidate_set (current_time s) (attendants s) = []")
  case True
  then show ?thesis
    using assms by (auto simp: handle_order_arrival_def scan_attendants_eq)
next
  case False
  then have "enumerate 0 (candidate_set (current_time s) (attendants s)) \<noteq> []"
    by (cases "candidate_set (current_time s) (attendants s)") simp_all
  then show ?thesis
    using assms False by (auto simp: handle_order_arrival_def scan_attendants_eq Let_def)
qed

lemma handle_order_completion_effect:
  assumes "handle_order_completion s n = Inr (out, s')"
  shows "out = Order_completed (current_time s) n \<and> current_time s' = current_time s \<and>
         processed s' = processed s \<and> rejected s' = rejected s \<and> event_queue s' = event_queue s"
  using assms by (auto simp: handle_order_completion_def split: option.splits)

section \<open>The invariant of reachable states\<close>

lemma orch_inv_iff:
  "orch_inv s \<longleftrightarrow>
     distinct (map fst (attendants s)) \<and>
     (\<forall>n a. (n, a) \<in> set (attendants s) \<longrightarrow> length (active_orders a) \<le> 2) \<and>
     is_heap (event_queue s) \<and>
     (\<forall>e\<in>set (event_queue s). type e = order_completion \<longrightarrow>
        (\<exists>n. data e = Some n \<and> n \<in> set (map fst (attendants s))))"
proof -
  have "(type e = order_arrival \<or>
          (case data e of None \<Rightarrow> False | Some n \<Rightarrow> n \<in> set (map fst (attendants s)))) \<longleftrightarrow>
        (type e = order_completion \<longrightarrow> (\<exists>n. data e = Some n \<and> n \<in> set (map fst (attendants s))))"
    for e :: event
    by (cases "type e"; cases "data e") simp_all
  then show ?thesis
    unfolding orch_inv_def list_all_iff by (simp add: split_def) auto
qed

lemma set_heappush: "set (heappush q e) = insert e (set q)"
proof -
  have "set_mset (mset (heappush q e)) = set_mset (add_mset e (mset q))"
    by (simp only: mset_heappush)
  then show ?thesis by simp
qed

lemma set_heappop: "heappop q = Inr (e, q') \<Longrightarrow> set q = insert e (set q')"
proof -
  assume "heappop q = Inr (e, q')"
  then have "set_mset (mset q) = set_mset (add_mset e (mset q'))"
    by (simp only: mset_heappop)
  then show ?thesis by simp
qed

lemma set_update_subset: "set (AList.update k v al) \<subseteq> insert (k, v) (set al)"
  by (induction al) auto

lemma keys_update_present:
  "k \<in> set (map fst al) \<Longrightarrow> map fst (AList.update k v al) = map fst al"
  by (simp add: update_keys)

lemma keys_refreshed: "map fst (map (\<lambda>(n, a). (n, update_state a t)) atts) = map fst atts"
  by (simp add: comp_def split_def)

lemma capacity_refreshed:
  assumes "\<And>n a. (n, a) \<in> set atts \<Longrightarrow> length (active_orders a) \<le> 2"
    and "(n, a) \<in> set (map (\<lambda>(n, a). (n, update_state a t)) atts)"
  shows "length (active_orders a) \<le> 2"
proof -
  obtain a0 where "(n, a0) \<in> set atts" "a = update_state a0 t"
    using assms(2) by auto
  then show ?thesis
    using assms(1)[of n a0] length_active_update_state[of a0 t] by simp
qed

lemma capacity_update:
  assumes "\<And>n a. (n, a) \<in> set atts \<Longrightarrow> length (active_orders a) \<le> 2"
    and "length (active_orders v) \<le> 2"
    and "(n, a) \<in> set (AList.update k v atts)"
  shows "length (active_orders a) \<le> 2"
  using assms set_update_subset[of k v atts] by auto

lemma keys_fold_update:
  "distinct (map fst d) \<Longrightarrow> distinct (map fst (fold (\<lambda>a d. AList.update (name a) a d) as d))"
  by (induction as arbitrary: d) (simp_all add: distinct_update)

lemma values_fold_update:
  "(n, a) \<in> set (fold (\<lambda>a d. AList.update (name a) a d) as d) \<Longrightarrow> a \<in> set as \<or> (n, a) \<in> set d"
proof (induction as arbitrary: d)
  case Nil
  then show ?case by simp
next
  case (Cons x as)
  then have "a \<in> set as \<or> (n, a) \<in> set (AList.update (name x) x d)" by simp
  then show ?case using set_update_subset[of "name x" x d] by auto
qed

lemma orch_inv_new: "orch_inv (Orchestrator_init (map Attendant_init names))"
proof -
  let ?d = "fold (\<lambda>a d. AList.update (name a) a d) (map Attendant_init names) []"
  have "distinct (map fst ?d)" by (intro keys_fold_update) simp
  moreover have "length (active_orders a) \<le> 2" if "(n, a) \<in> set ?d" for n a
    using values_fold_update[OF that] by (auto simp: Attendant_init_def)
  ultimately show ?thesis
    by (auto simp: orch_inv_iff Orchestrator_init_def is_heap_def)
qed

lemma orch_inv_add_order: "orch_inv s \<Longrightarrow> orch_inv (add_order s t)"
  by (auto simp: orch_inv_iff add_order_def is_heap_heappush set_heappush)

lemma orch_inv_update_attendant_status:
  assumes "orch_inv s" "update_attendant_status s n st = Inr s'"
  shows "orch_inv s'"
proof -
  obtain a where a: "map_of (attendants s) n = Some a"
    using assms(2) by (auto simp: update_attendant_status_def split: option.splits)
  define a2 where "a2 = (if st = ''active'' then update_state (a\<lparr>status := st\<rparr>) (current_time s)
                         else a\<lparr>status := st\<rparr>)"
  have s': "s' = s\<lparr>attendants := AList.update n a2 (attendants s)\<rparr>"
    using assms(2) a by (simp add: update_attendant_status_def a2_def Let_def)
  have key: "n \<in> set (map fst (attendants s))"
    using a by (force dest: map_of_SomeD)
  have "(n, a) \<in> set (attendants s)" using a by (rule map_of_SomeD)
  then have "length (active_orders a) \<le> 2"
    using assms(1) by (auto simp: orch_inv_iff)
  then have a2: "length (active_orders a2) \<le> 2"
    using length_active_update_state[of "a\<lparr>status := st\<rparr>" "current_time s"]
    by (cases "st = ''active''") (simp_all add: a2_def)
  have cap: "length (active_orders b) \<le> 2" if "(m, b) \<in> set (AList.update n a2 (attendants s))" for m b
    using assms(1) a2 that by (intro capacity_update[OF _ a2 that]) (auto simp: orch_inv_iff)
  show ?thesis
    unfolding orch_inv_iff using assms(1) key cap
    by (auto simp: s' distinct_update keys_update_present orch_inv_iff)
qed

lemma orch_inv_handle_order_arrival:
  assumes "orch_inv s" "handle_order_arrival rs s = (out, rs', s')"
  shows "orch_inv s'"
proof -
  let ?t = "current_time s"
  let ?refreshed = "map (\<lambda>(n, a). (n, update_state a ?t)) (attendants s)"
  let ?cs = "candidate_set ?t (attendants s)"
  have dist: "distinct (map fst (attendants s))"
    and cap: "\<And>n a. (n, a) \<in> set (attendants s) \<Longrightarrow> length (active_orders a) \<le> 2"
    and heap: "is_heap (event_queue s)"
    and known: "\<And>e. e \<in> set (event_queue s) \<Longrightarrow> type e = order_completion \<Longrightarrow>
                  \<exists>n. data e = Some n \<and> n \<in> set (map fst (attendants s))"
    using assms(1) by (auto simp: orch_inv_iff)
  have capr: "\<And>n a. (n, a) \<in> set ?refreshed \<Longrightarrow> length (active_orders a) \<le> 2"
    using capacity_refreshed[of "attendants s" _ _ ?t] cap by blast
  show ?thesis
  proof (cases "?cs = []")
    case True
    have "s' = s\<lparr>attendants := ?refreshed, rejected := rejected s + 1\<rparr>"
      using assms(2) handle_order_arrival_reject[OF True, of rs] by simp
    then show ?thesis
      unfolding orch_inv_iff using dist capr heap known
      by (simp add: keys_refreshed del: map_map)
  next
    case False
    obtain k where k: "k < length ?cs"
      and eq: "handle_order_arrival rs s =
          (Order_accepted ?t (fst (?cs ! k)), (\<lambda>i. rs (i + length ?cs)),
           s\<lparr>attendants := AList.update (fst (?cs ! k)) (start_order (snd (?cs ! k)) ?t) ?refreshed,
             processed := processed s + 1,
             event_queue := heappush (event_queue s)
               \<lparr>time = ?t + 5, type = order_completion, data = Some (fst (?cs ! k))\<rparr>\<rparr>)"
      using handle_order_arrival_accept[OF dist refl False, of rs] by blast
    let ?best = "fst (?cs ! k)"
    let ?a = "snd (?cs ! k)"
    have mem: "?cs ! k \<in> set ?refreshed" and acc: "can_accept ?a ?t"
      using candidate_can_accept[of "?cs ! k" ?t "attendants s"] k by auto
    have key: "?best \<in> set (map fst ?refreshed)"
      using mem by (metis image_eqI set_map)
    have "length (active_orders ?a) < 2"
      using acc by (auto simp: can_accept_def split: if_splits)
    then have new: "length (active_orders (start_order ?a ?t)) \<le> 2"
      by (simp add: length_active_start_order)
    have s': "s' = s\<lparr>attendants := AList.update ?best (start_order ?a ?t) ?refreshed,
             processed := processed s + 1,
             event_queue := heappush (event_queue s)
               \<lparr>time = ?t + 5, type = order_completion, data = Some ?best\<rparr>\<rparr>"
      using assms(2) eq by simp
    have keys: "map fst (AList.update ?best (start_order ?a ?t) ?refreshed) = map fst (attendants s)"
      using keys_update_present[OF key] keys_refreshed[of ?t "attendants s"] by simp
    have cap': "length (active_orders b) \<le> 2"
      if "(m, b) \<in> set (AList.update ?best (start_order ?a ?t) ?refreshed)" for m b
      using capacity_update[OF capr new that] .
    have bk: "?best \<in> set (map fst (attendants s))"
      using key keys_refreshed[of ?t "attendants s"] by simp
    show ?thesis
      unfolding orch_inv_iff s'
      using dist cap' heap known bk
      by (auto simp: keys is_heap_heappush set_heappush simp del: map_map)
  qed
qed

lemma orch_inv_handle_order_completion:
  assumes "orch_inv s" "handle_order_completion s n = Inr (out, s')"
  shows "orch_inv s'"
proof -
  obtain a where a: "map_of (attendants s) n = Some a"
    using assms(2) by (auto simp: handle_order_completion_def split: option.splits)
  have s': "s' = s\<lparr>attendants := AList.update n (update_state a (current_time s)) (attendants s)\<rparr>"
    using assms(2) a by (simp add: handle_order_completion_def)
  have key: "n \<in> set (map fst (attendants s))"
    using a by (force dest: map_of_SomeD)
  have "(n, a) \<in> set (attendants s)" using a by (rule map_of_SomeD)
  then have "length (active_orders a) \<le> 2"
    using assms(1) by (auto simp: orch_inv_iff)
  then have a2: "length (active_orders (update_state a (current_time s))) \<le> 2"
    using length_active_update_state[of a "current_time s"] by simp
  have cap: "length (active_orders b) \<le> 2"
    if "(m, b) \<in> set (AList.update n (update_state a (current_time s)) (attendants s))" for m b
    using assms(1) by (intro capacity_update[OF _ a2 that]) (auto simp: orch_inv_iff)
  show ?thesis
    unfolding orch_inv_iff using assms(1) key cap
    by (auto simp: s' distinct_update keys_update_present orch_inv_iff)
qed

lemma orch_inv_popped:
  assumes "orch_inv s" "heappop (event_queue s) = Inr (e, q)"
  shows "orch_inv (s\<lparr>event_queue := q, current_time := time e\<rparr>)"
  using assms is_heap_heappop[OF assms(2)] set_heappop[OF assms(2)]
  by (auto simp: orch_inv_iff)

lemma orch_inv_process_event:
  assumes "orch_inv s" "process_event rs s = Inr (out, rs', s')"
  shows "orch_inv s'"
proof -
  obtain e q where pop: "heappop (event_queue s) = Inr (e, q)"
    using assms(2) by (auto simp: process_event_def split: sum.splits)
  let ?s1 = "s\<lparr>event_queue := q, current_time := time e\<rparr>"
  have inv1: "orch_inv ?s1" using assms(1) pop by (rule orch_inv_popped)
  show ?thesis
  proof (cases "type e")
    case order_arrival
    then have "handle_order_arrival rs ?s1 = (out, rs', s')"
      using assms(2) pop by (simp add: process_event_def)
    then show ?thesis using inv1 orch_inv_handle_order_arrival by blast
  next
    case order_completion
    then obtain n where "handle_order_completion ?s1 n = Inr (out, s')"
      using assms(2) pop by (auto simp: process_event_def split: option.splits sum.splits)
    then show ?thesis using inv1 orch_inv_handle_order_completion by blast
  qed
qed

lemma process_event_succeeds:
  assumes "orch_inv s" "event_queue s \<noteq> []"
  shows "\<exists>out rs' s'. process_event rs s = Inr (out, rs', s')"
proof -
  obtain e q where pop: "heappop (event_queue s) = Inr (e, q)"
    using heappop_nonempty[OF assms(2)] by blast
  let ?s1 = "s\<lparr>event_queue := q, current_time := time e\<rparr>"
  show ?thesis
  proof (cases "type e")
    case order_arrival
    then show ?thesis using pop
      by (cases "handle_order_arrival rs ?s1") (simp add: process_event_def)
  next
    case order_completion
    have "e \<in> set (event_queue s)" using set_heappop[OF pop] by simp
    moreover have "\<forall>e\<in>set (event_queue s). type e = order_completion \<longrightarrow>
        (\<exists>n. data e = Some n \<and> n \<in> set (map fst (attendants s)))"
      using assms(1) unfolding orch_inv_iff by blast
    ultimately obtain n where n: "data e = Some n" "n \<in> set (map fst (attendants s))"
      using order_completion by blast
    then obtain a where "map_of (attendants s) n = Some a"
      by (cases "map_of (attendants s) n") (auto simp: map_of_eq_None_iff)
    then show ?thesis using pop order_completion n
      by (simp add: process_event_def handle_order_completion_def)
  qed
qed

section \<open>The event loop\<close>

lemma process_events_empty: "event_queue s = [] \<Longrightarrow> process_events rs s = Inr ([], rs, s)"
  by (subst process_events.simps) simp

lemma process_events_step:
  "event_queue s \<noteq> [] \<Longrightarrow> process_event rs s = Inr (out, rs1, s1) \<Longrightarrow>
     process_events rs s =
       (case process_events rs1 s1 of
          Inl e \<Rightarrow> Inl e
        | Inr (outs, rs', s') \<Rightarrow> Inr (out # outs, rs', s'))"
  by (subst process_events.simps) simp

lemma process_events_cases:
  assumes "process_events rs s = Inr (outs, rs', s')"
  obtains (stop) "event_queue s = []" "outs = []" "rs' = rs" "s' = s"
  | (step) out rs1 s1 outs1 where "event_queue s \<noteq> []" "process_event rs s = Inr (out, rs1, s1)"
      "process_events rs1 s1 = Inr (outs1, rs', s')" "outs = out # outs1"
proof (cases "event_queue s = []")
  case True
  then have "outs = []" "rs' = rs" "s' = s"
    using assms process_events_empty[OF True, of rs] by simp_all
  then show ?thesis by (rule stop[OF True])
next
  case False
  have "\<exists>out rs1 s1. process_event rs s = Inr (out, rs1, s1)"
  proof (cases "process_event rs s")
    case (Inl e)
    then show ?thesis using assms False by (subst (asm) process_events.simps) simp
  next
    case (Inr x)
    then show ?thesis by (cases x) auto
  qed
  then obtain out rs1 s1 where pe: "process_event rs s = Inr (out, rs1, s1)" by blast
  have eq: "(case process_events rs1 s1 of
          Inl e \<Rightarrow> Inl e
        | Inr (outs, rs', s') \<Rightarrow> Inr (out # outs, rs', s')) = Inr (outs, rs', s')"
    using assms process_events_step[OF False pe] by simp
  have "\<exists>outs1. process_events rs1 s1 = Inr (outs1, rs', s') \<and> outs = out # outs1"
  proof (cases "process_events rs1 s1")
    case (Inl e)
    then show ?thesis using eq by simp
  next
    case (Inr y)
    then show ?thesis using eq by (cases y) auto
  qed
  then show ?thesis using step False pe by blast
qed

lemma process_events_preserves:
  assumes step: "\<And>rs s out rs' s'. P s \<Longrightarrow> process_event rs s = Inr (out, rs', s') \<Longrightarrow> P s'"
  shows "P s \<Longrightarrow> process_events rs s = Inr (outs, rs', s') \<Longrightarrow> P s'"
proof (induction rs s arbitrary: outs rule: process_events.induct)
  case (1 rs s)
  from 1(3) show ?case
  proof (cases rule: process_events_cases)
    case stop
    then show ?thesis using 1(2) by simp
  next
    case (step out rs1 s1 outs1)
    have "P s1" using step(2) 1(2) assms by blast
    then show ?thesis using 1(1)[OF step(1) step(2) refl refl _ step(3)] by simp
  qed
qed

lemma orch_inv_process_events:
  "orch_inv s \<Longrightarrow> process_events rs s = Inr (outs, rs', s') \<Longrightarrow> orch_inv s'"
  using orch_inv_process_event by (rule process_events_preserves)

lemma reachable_orch_inv: "reachable s \<Longrightarrow> orch_inv s"
proof (induction rule: reachable.induct)
  case (new names)
  show ?case by (rule orch_inv_new)
next
  case (submitArrival s t)
  then show ?case by (simp add: orch_inv_add_order)
next
  case (setWorkerStatus s n st s')
  then show ?case using orch_inv_update_attendant_status by blast
next
  case (run s rs outs rs' s')
  then show ?case using orch_inv_process_events by blast
next
  case (run_step s rs out rs' s')
  then show ?case using orch_inv_process_event by blast
next
  case (driver_push s n t)
  then show ?case
    by (auto simp: orch_inv_iff is_heap_heappush set_heappush)
qed

lemma process_events_succeeds:
  "orch_inv s \<Longrightarrow> \<exists>outs rs' s'. process_events rs s = Inr (outs, rs', s') \<and> event_queue s' = []"
proof (induction rs s rule: process_events.induct)
  case (1 rs s)
  show ?case
  proof (cases "event_queue s = []")
    case True
    then show ?thesis by (simp add: process_events_empty)
  next
    case False
    obtain out rs1 s1 where pe: "process_event rs s = Inr (out, rs1, s1)"
      using process_event_succeeds[OF 1(2) False] by blast
    have "orch_inv s1" using 1(2) pe by (rule orch_inv_process_event)
    then obtain outs rs' s' where "process_events rs1 s1 = Inr (outs, rs', s')" "event_queue s' = []"
      using 1(1)[OF False pe refl refl] by blast
    then show ?thesis using False pe by (simp add: process_events_step)
  qed
qed

lemma process_events_no_output:
  assumes "process_events rs s = Inr ([], rs', s')"
  shows "s' = s \<and> rs' = rs \<and> event_queue s = []"
  using assms by (cases rule: process_events_cases) simp_all

section \<open>Counting events\<close>

lemma arrivals_mset: "arrivals q = size (filter_mset (\<lambda>e. type e = order_arrival) (mset q))"
  by (simp add: arrivals_def flip: mset_filter)

lemma length_heappop: "heappop q = Inr (e, q') \<Longrightarrow> length q = Suc (length q')"
proof -
  assume "heappop q = Inr (e, q')"
  then have "size (mset q) = size (add_mset e (mset q'))" by (simp only: mset_heappop)
  then show ?thesis by simp
qed

lemma arrivals_heappop:
  "heappop q = Inr (e, q') \<Longrightarrow>
     arrivals q = (if type e = order_arrival then Suc (arrivals q') else arrivals q')"
  by (simp add: arrivals_mset mset_heappop)

lemma arrivals_heappush:
  "arrivals (heappush q e) = (if type e = order_arrival then Suc (arrivals q) else arrivals q)"
  by (simp add: arrivals_mset mset_heappush)

lemma not_accepted_and_rejected: "\<not> (accepted_line out \<and> rejected_line out)"
  by (cases out) simp_all

lemma process_event_effect:
  assumes "process_event rs s = Inr (out, rs', s')"
  shows "\<exists>e q. heappop (event_queue s) = Inr (e, q) \<and>
           printed_time out = time e \<and> current_time s' = time e \<and>
           (type e = order_arrival \<longleftrightarrow> accepted_line out \<or> rejected_line out) \<and>
           \<not> (accepted_line out \<and> rejected_line out) \<and>
           processed s' = (if accepted_line out then processed s + 1 else processed s) \<and>
           rejected s' = (if rejected_line out then rejected s + 1 else rejected s) \<and>
           (if accepted_line out
            then \<exists>best. event_queue s' = heappush q
                    \<lparr>time = time e + 5, type = order_completion, data = Some best\<rparr>
            else event_queue s' = q)"
proof -
  obtain e q where pop: "heappop (event_queue s) = Inr (e, q)"
    using assms by (auto simp: process_event_def split: sum.splits)
  let ?s1 = "s\<lparr>event_queue := q, current_time := time e\<rparr>"
  show ?thesis
  proof (cases "type e")
    case order_arrival
    then have "handle_order_arrival rs ?s1 = (out, rs', s')"
      using assms pop by (simp add: process_event_def)
    from handle_order_arrival_effect[OF this] show ?thesis
      using pop order_arrival by (cases out) (auto split: if_splits)
  next
    case order_completion
    then obtain n where "handle_order_completion ?s1 n = Inr (out, s')"
      using assms pop by (auto simp: process_event_def split: option.splits sum.splits)
    from handle_order_completion_effect[OF this] show ?thesis
      using pop order_completion by auto
  qed
qed

lemma process_event_counts:
  assumes "process_event rs s = Inr (out, rs', s')"
  shows "processed s' = processed s + (if accepted_line out then 1 else 0)"
    and "rejected s' = rejected s + (if rejected_line out then 1 else 0)"
    and "arrivals (event_queue s) =
           arrivals (event_queue s') + (if accepted_line out \<or> rejected_line out then 1 else 0)"
    and "Suc (length (event_queue s')) =
           length (event_queue s) + (if accepted_line out then 1 else 0)"
proof -
  obtain e q where pop: "heappop (event_queue s) = Inr (e, q)"
    and ty: "type e = order_arrival \<longleftrightarrow> accepted_line out \<or> rejected_line out"
    and p: "processed s' = (if accepted_line out then processed s + 1 else processed s)"
    and r: "rejected s' = (if rejected_line out then rejected s + 1 else rejected s)"
    and q: "if accepted_line out
            then \<exists>best. event_queue s' = heappush q
                    \<lparr>time = time e + 5, type = order_completion, data = Some best\<rparr>
            else event_queue s' = q"
    using process_event_effect[OF assms] by blast
  show "processed s' = processed s + (if accepted_line out then 1 else 0)" using p by simp
  show "rejected s' = rejected s + (if rejected_line out then 1 else 0)" using r by simp
  have aq: "arrivals (event_queue s') = arrivals q"
    using q by (auto simp: arrivals_heappush split: if_splits)
  show "arrivals (event_queue s) =
           arrivals (event_queue s') + (if accepted_line out \<or> rejected_line out then 1 else 0)"
    using arrivals_heappop[OF pop] ty aq by simp
  show "Suc (length (event_queue s')) = length (event_queue s) + (if accepted_line out then 1 else 0)"
    using length_heappop[OF pop] q by (auto simp: length_heappush split: if_splits)
qed

lemma process_events_counts:
  "process_events rs s = Inr (outs, rs', s') \<Longrightarrow>
     processed s' = processed s + int (length (filter accepted_line outs)) \<and>
     rejected s' = rejected s + int (length (filter rejected_line outs)) \<and>
     arrivals (event_queue s) = length (filter accepted_line outs) + length (filter rejected_line outs) \<and>
     length outs = length (event_queue s) + length (filter accepted_line outs) \<and>
     event_queue s' = []"
proof (induction rs s arbitrary: outs rule: process_events.induct)
  case (1 rs s)
  from 1(2) show ?case
  proof (cases rule: process_events_cases)
    case stop
    then show ?thesis by (simp add: arrivals_def)
  next
    case (step out rs1 s1 outs1)
    note IH = 1(1)[OF step(1) step(2) refl refl step(3)]
    note c = process_event_counts[OF step(2)]
    show ?thesis
      using IH c step(1) not_accepted_and_rejected[of out]
      by (cases "event_queue s") (auto simp: step(4))
  qed
qed

lemma process_events_times:
  "process_events rs s = Inr (outs, rs', s') \<Longrightarrow> is_heap (event_queue s) \<Longrightarrow>
     \<forall>e\<in>set (event_queue s). lb \<le> time e \<Longrightarrow>
     sorted (map printed_time outs) \<and> (\<forall>out\<in>set outs. lb \<le> printed_time out) \<and>
     (outs \<noteq> [] \<longrightarrow> current_time s' = printed_time (last outs))"
proof (induction rs s arbitrary: outs lb rule: process_events.induct)
  case (1 rs s)
  from 1(2) show ?case
  proof (cases rule: process_events_cases)
    case stop
    then show ?thesis by simp
  next
    case (step out rs1 s1 outs1)
    obtain e q where pop: "heappop (event_queue s) = Inr (e, q)"
      and t: "printed_time out = time e" "current_time s1 = time e"
      and q: "if accepted_line out
            then \<exists>best. event_queue s1 = heappush q
                    \<lparr>time = time e + 5, type = order_completion, data = Some best\<rparr>
            else event_queue s1 = q"
      using process_event_effect[OF step(2)] by blast
    have hq: "is_heap q" using pop 1(3) by (rule is_heap_heappop)
    have minq: "\<forall>y\<in>set q. time e \<le> time y"
      using heappop_min[OF pop 1(3)] by blast
    have "e \<in> set (event_queue s)" using set_heappop[OF pop] by simp
    then have lb: "lb \<le> time e" using 1(4) by blast
    have h1: "is_heap (event_queue s1)"
      using q hq by (auto simp: is_heap_heappush split: if_splits)
    have m1: "\<forall>y\<in>set (event_queue s1). time e \<le> time y"
      using q minq by (auto simp: set_heappush split: if_splits)
    note IH = 1(1)[OF step(1) step(2) refl refl step(3) h1 m1]
    have "current_time s' = time e" if "outs1 = []"
      using process_events_no_output[of rs1 s1 rs' s'] step(3) that t by simp
    then show ?thesis
      using IH lb t by (auto simp: step(4))
  qed
qed

section \<open>The trace of a run\<close>

lemma run_trace_empty: "event_queue s = [] \<Longrightarrow> run_trace rs s = []"
  by (subst run_trace.simps) simp

lemma run_trace_step:
  "event_queue s \<noteq> [] \<Longrightarrow> heappop (event_queue s) = Inr (e, q) \<Longrightarrow>
     process_event rs s = Inr (out, rs1, s1) \<Longrightarrow>
     run_trace rs s = (e, s1) # run_trace rs1 s1"
  by (subst run_trace.simps) simp

lemma run_trace_process_events:
  "process_events rs s = Inr (outs, rs', s') \<Longrightarrow>
     map (\<lambda>(e, s1). time e) (run_trace rs s) = map printed_time outs \<and>
     map (\<lambda>(e, s1). current_time s1) (run_trace rs s) = map printed_time outs \<and>
     s' = last (s # map snd (run_trace rs s))"
proof (induction rs s arbitrary: outs rule: process_events.induct)
  case (1 rs s)
  from 1(2) show ?case
  proof (cases rule: process_events_cases)
    case stop
    then show ?thesis by (simp add: run_trace_empty)
  next
    case (step out rs1 s1 outs1)
    obtain e q where pop: "heappop (event_queue s) = Inr (e, q)"
      and t: "printed_time out = time e" "current_time s1 = time e"
      using process_event_effect[OF step(2)] by blast
    note IH = 1(1)[OF step(1) step(2) refl refl step(3)]
    show ?thesis
      using IH t by (simp add: run_trace_step[OF step(1) pop step(2)] step(4))
  qed
qed

section \<open>Evaluating the example states\<close>

lemmas run_eval =
  add_order_def Orchestrator_init_def Attendant_init_def heappush_def heappop_def
  siftup_def siftup_loop.simps siftdown_def siftdown_loop.simps Event_lt_def
  process_event_def handle_order_arrival_def handle_order_completion_def
  update_state_def can_accept_def random_random_def min_py_def start_order_def Let_def

lemma demo_roster_eval:
  "demo_roster = \<lparr>attendants = [(''Alice'', Attendant_init ''Alice''), (''Bob'', Attendant_init ''Bob'')],
      event_queue = [], current_time = 0, processed = 0, rejected = 0\<rparr>"
  by (simp add: demo_roster_def Orchestrator_init_def Attendant_init_def)

lemma reachable_demo: "reachable demo"
  unfolding demo_def by (intro reachable.intros)

lemma demo_run:
  "process_events (\<lambda>_. 0) demo =
     Inr ([Order_accepted 0 ''Alice'', Order_accepted 1 ''Bob'', Order_rejected 2,
           Order_completed 5 ''Alice'', Order_completed 6 ''Bob''],
          (\<lambda>_. 0),
          \<lparr>attendants =
             [(''Alice'', \<lparr>name = ''Alice'', active_orders = [], status = ''active'',
                          next_available = 5\<rparr>),
              (''Bob'', \<lparr>name = ''Bob'', active_orders = [], status = ''active'',
                        next_available = 6\<rparr>)],
           event_queue = [], current_time = 6, processed = 2, rejected = 1\<rparr>)"
  by (simp add: demo_def process_events.simps run_eval)

lemma alice_step1:
  "process_event (\<lambda>_. 0) alice0 = Inr (Order_accepted 0 ''Alice'', (\<lambda>_. 0), alice1)"
  by (simp add: alice0_def alice1_def run_eval)

lemma alice_step2:
  "process_event (\<lambda>_. 0) alice1 = Inr (Order_accepted 4 ''Alice'', (\<lambda>_. 0), alice2)"
  by (simp add: alice1_def alice2_def run_eval)

lemma reachable_alice2: "reachable alice2"
proof -
  have "reachable alice0" unfolding alice0_def by (intro reachable.intros)
  then have "reachable alice1" using alice_step1 by (rule reachable.run_step)
  then show ?thesis using alice_step2 by (rule reachable.run_step)
qed

lemma reachable_early: "reachable early"
  unfolding early_def by (intro reachable.intros)

lemma early_trace:
  "map (\<lambda>(e, s1). current_time s1) (run_trace (\<lambda>_. 0) early) = [- 1, 4]"
  by (simp add: early_def run_trace.simps run_eval)

lemma demo_trace:
  "map (\<lambda>(e, s1). time e) (run_trace (\<lambda>_. 0) demo) = [0, 1, 2, 5, 6]"
  "map (\<lambda>(e, s1). current_time s1) (run_trace (\<lambda>_. 0) demo) = [0, 1, 2, 5, 6]"
  by (simp_all add: demo_def run_trace.simps run_eval)

section \<open>The claims\<close>

text \<open>
  C1 (capacity invariant). In every state reachable through the public operations,
  and in every state between two iterations of the event loop, every worker of the
  roster holds at most two active orders.
\<close>

theorem capacity_invariant:
  assumes "reachable s" and "(n, a) \<in> set (attendants s)"
  shows "length (active_orders a) \<le> 2"
  using reachable_orch_inv[OF assms(1)] assms(2) by (auto simp: orch_inv_iff)

theorem capacity_invariant_witness:
  "reachable alice2 \<and>
   (''Alice'', \<lparr>name = ''Alice'', active_orders = [0, 4], status = ''active'',
                next_available = 4\<rparr>) \<in> set (attendants alice2) \<and>
   length (active_orders \<lparr>name = ''Alice'', active_orders = [0, 4], status = ''active'',
                          next_available = 4\<rparr>) \<le> 2"
proof -
  have m: "(''Alice'', \<lparr>name = ''Alice'', active_orders = [0, 4], status = ''active'',
                next_available = 4\<rparr>) \<in> set (attendants alice2)"
    by (simp add: alice2_def)
  show ?thesis
    using reachable_alice2 m capacity_invariant[OF reachable_alice2 m] by blast
qed

text \<open>
  C2 (assignment policy). When the candidate set of an arrival is not empty, the worker
  that receives the order is a candidate, the \<open>k\<close>-th in roster order, whose pair
  \<open>(len(active_orders), draw)\<close> is least among all candidates, where the \<open>j\<close>-th
  candidate's draw is the \<open>j\<close>-th random number drawn while handling this arrival; in
  particular no candidate holds fewer orders. The roster afterwards is the refreshed
  roster with the order appended to that worker.
\<close>

theorem arrival_selects_least_loaded:
  assumes "distinct (map fst (attendants s))"
    and "cs = candidate_set (current_time s) (attendants s)"
    and "cs \<noteq> []"
  shows "fst (snd (scan_attendants (current_time s) (attendants s) rs)) =
           map (\<lambda>(j, n, a). ((length (active_orders a), rs j), n)) (enumerate 0 cs) \<and>
         (\<exists>k<length cs.
           fst (handle_order_arrival rs s) = Order_accepted (current_time s) (fst (cs ! k)) \<and>
           attendants (snd (snd (handle_order_arrival rs s))) =
             AList.update (fst (cs ! k)) (start_order (snd (cs ! k)) (current_time s))
               (map (\<lambda>(n, a). (n, update_state a (current_time s))) (attendants s)) \<and>
           (\<forall>j<length cs. (length (active_orders (snd (cs ! k))), rs k)
                         \<le> (length (active_orders (snd (cs ! j))), rs j)) \<and>
           (\<forall>j<length cs. length (active_orders (snd (cs ! k)))
                         \<le> length (active_orders (snd (cs ! j)))))"
proof -
  have cands: "fst (snd (scan_attendants (current_time s) (attendants s) rs)) =
           map (\<lambda>(j, n, a). ((length (active_orders a), rs j), n)) (enumerate 0 cs)"
    by (simp add: scan_attendants_eq assms(2))
  obtain k where k: "k < length cs"
    and eq: "handle_order_arrival rs s =
             (Order_accepted (current_time s) (fst (cs ! k)), (\<lambda>i. rs (i + length cs)),
              s\<lparr>attendants :=
                  AList.update (fst (cs ! k)) (start_order (snd (cs ! k)) (current_time s))
                    (map (\<lambda>(n, a). (n, update_state a (current_time s))) (attendants s)),
                processed := processed s + 1,
                event_queue := heappush (event_queue s)
                  \<lparr>time = current_time s + 5, type = order_completion,
                    data = Some (fst (cs ! k))\<rparr>\<rparr>)"
    and least: "\<forall>j<length cs. (length (active_orders (snd (cs ! k))), rs k)
                         \<le> (length (active_orders (snd (cs ! j))), rs j)"
    using handle_order_arrival_accept[OF assms, of rs] by blast
  have "\<forall>j<length cs. length (active_orders (snd (cs ! k)))
                         \<le> length (active_orders (snd (cs ! j)))"
    using least by (auto simp: less_eq_prod_def)
  then have "\<exists>k<length cs.
           fst (handle_order_arrival rs s) = Order_accepted (current_time s) (fst (cs ! k)) \<and>
           attendants (snd (snd (handle_order_arrival rs s))) =
             AList.update (fst (cs ! k)) (start_order (snd (cs ! k)) (current_time s))
               (map (\<lambda>(n, a). (n, update_state a (current_time s))) (attendants s)) \<and>
           (\<forall>j<length cs. (length (active_orders (snd (cs ! k))), rs k)
                         \<le> (length (active_orders (snd (cs ! j))), rs j)) \<and>
           (\<forall>j<length cs. length (active_orders (snd (cs ! k)))
                         \<le> length (active_orders (snd (cs ! j))))"
    using k eq least by (intro exI[of _ k]) simp
  with cands show ?thesis by blast
qed

theorem arrival_selects_least_loaded_witness:
  "distinct (map fst (attendants busy_alice)) \<and>
   [(''Alice'', \<lparr>name = ''Alice'', active_orders = [0], status = ''active'', next_available = 4\<rparr>),
    (''Bob'', \<lparr>name = ''Bob'', active_orders = [], status = ''active'', next_available = 4\<rparr>)]
     = candidate_set (current_time busy_alice) (attendants busy_alice) \<and>
   fst (handle_order_arrival (\<lambda>i. real i) busy_alice) = Order_accepted 4 ''Bob'' \<and>
   attendants (snd (snd (handle_order_arrival (\<lambda>i. real i) busy_alice))) =
     [(''Alice'', \<lparr>name = ''Alice'', active_orders = [0], status = ''active'', next_available = 4\<rparr>),
      (''Bob'', \<lparr>name = ''Bob'', active_orders = [4], status = ''active'', next_available = 4\<rparr>)] \<and>
   (\<exists>k<length [(''Alice'', \<lparr>name = ''Alice'', active_orders = [0::real], status = ''active'', next_available = 4::real\<rparr>),
                    (''Bob'', \<lparr>name = ''Bob'', active_orders = [], status = ''active'', next_available = 4\<rparr>)].
      fst (handle_order_arrival (\<lambda>i. real i) busy_alice) =
        Order_accepted (current_time busy_alice)
          (fst ([(''Alice'', \<lparr>name = ''Alice'', active_orders = [0], status = ''active'', next_available = 4\<rparr>),
                 (''Bob'', \<lparr>name = ''Bob'', active_orders = [], status = ''active'', next_available = 4\<rparr>)] ! k)))"
proof -
  let ?cs = "[(''Alice'', \<lparr>name = ''Alice'', active_orders = [0], status = ''active'', next_available = 4\<rparr>),
    (''Bob'', \<lparr>name = ''Bob'', active_orders = [], status = ''active'', next_available = (4::real)\<rparr>)]"
  have h1: "distinct (map fst (attendants busy_alice))"
    by (simp add: busy_alice_def)
  have h2: "?cs = candidate_set (current_time busy_alice) (attendants busy_alice)"
    by (simp add: busy_alice_def candidate_set_def update_state_def can_accept_def)
  have h3: "?cs \<noteq> []" by simp
  have h4: "handle_order_arrival (\<lambda>i. real i) busy_alice =
     (Order_accepted 4 ''Bob'', (\<lambda>i. real (Suc i) + 1),
      \<lparr>attendants = [(''Alice'', \<lparr>name = ''Alice'', active_orders = [0], status = ''active'', next_available = 4\<rparr>),
                     (''Bob'', \<lparr>name = ''Bob'', active_orders = [4], status = ''active'', next_available = 4\<rparr>)],
       event_queue = [\<lparr>time = 5, type = order_completion, data = Some ''Alice''\<rparr>,
                      \<lparr>time = 9, type = order_completion, data = Some ''Bob''\<rparr>],
       current_time = 4, processed = 2, rejected = 0\<rparr>)"
    by (simp add: busy_alice_def run_eval)
  have h5: "fst (handle_order_arrival (\<lambda>i. real i) busy_alice) = Order_accepted 4 ''Bob''"
    and h6: "attendants (snd (snd (handle_order_arrival (\<lambda>i. real i) busy_alice))) =
     [(''Alice'', \<lparr>name = ''Alice'', active_orders = [0], status = ''active'', next_available = 4\<rparr>),
      (''Bob'', \<lparr>name = ''Bob'', active_orders = [4], status = ''active'', next_available = 4\<rparr>)]"
    by (simp_all add: h4)
  from arrival_selects_least_loaded[OF h1 h2 h3, of "\<lambda>i. real i"]
  have "\<exists>k<length ?cs. fst (handle_order_arrival (\<lambda>i. real i) busy_alice) =
        Order_accepted (current_time busy_alice) (fst (?cs ! k))"
    by blast
  with h1 h2 h5 h6 show ?thesis by blast
qed

text \<open>
  C3 (single-order cooldown). A worker holding exactly one order started at \<open>t\<close>:
  refreshing at a time \<open>c\<close> with \<open>t \<le> c < t + 3\<close> sets \<open>next_available\<close> to \<open>t + 3\<close>;
  refreshing at any \<open>c \<ge> t + 3\<close> sets it to \<open>c\<close>, whether the order is still held
  (\<open>c < t + 5\<close>) or has been evicted (\<open>t + 5 \<le> c\<close>).
\<close>

theorem single_order_cooldown:
  assumes "active_orders a = [t]"
  shows "(t \<le> c \<and> c < t + 3 \<longrightarrow> next_available (update_state a c) = t + 3) \<and>
         (c \<ge> t + 3 \<longrightarrow> next_available (update_state a c) = c) \<and>
         (c \<ge> t + 3 \<and> c < t + 5 \<longrightarrow> active_orders (update_state a c) = [t]) \<and>
         (t + 5 \<le> c \<longrightarrow> active_orders (update_state a c) = [])"
  using assms by (auto simp add: update_state_def Let_def)

theorem single_order_cooldown_witness:
  "active_orders ((Attendant_init ''Alice'')\<lparr>active_orders := [10]\<rparr>) = [10] \<and>
   next_available (update_state ((Attendant_init ''Alice'')\<lparr>active_orders := [10]\<rparr>) 12) = 13 \<and>
   next_available (update_state ((Attendant_init ''Alice'')\<lparr>active_orders := [10]\<rparr>) 14) = 14 \<and>
   active_orders (update_state ((Attendant_init ''Alice'')\<lparr>active_orders := [10]\<rparr>) 14) = [10] \<and>
   next_available (update_state ((Attendant_init ''Alice'')\<lparr>active_orders := [10]\<rparr>) 15) = 15 \<and>
   active_orders (update_state ((Attendant_init ''Alice'')\<lparr>active_orders := [10]\<rparr>) 15) = []"
  using single_order_cooldown [of "(Attendant_init ''Alice'')\<lparr>active_orders := [10]\<rparr>" 10 12]
    single_order_cooldown [of "(Attendant_init ''Alice'')\<lparr>active_orders := [10]\<rparr>" 10 14]
    single_order_cooldown [of "(Attendant_init ''Alice'')\<lparr>active_orders := [10]\<rparr>" 10 15]
  by (simp add: Attendant_init_def)

text \<open>
  C4 (double-order gate). As stated, for every refresh time \<open>c\<close>, the claim fails: once
  \<open>c \<ge> t0 + 5\<close> the first order is evicted before the availability is computed, and
  the one-order or zero-order branch applies. With orders started at 0 and 2 and a
  refresh at 6, the order started at 0 is dropped and \<open>next_available\<close> becomes
  \<open>max 6 (2 + 3) = 6\<close>, not \<open>max (0 + 5) (2 + 3) = 5\<close>.
\<close>

theorem double_order_gate_counterexample:
  "\<not> (next_available (update_state ((Attendant_init ''Alice'')\<lparr>active_orders := [0, 2]\<rparr>) 6)
        = max (0 + 5) (2 + 3))"
  by (simp add: update_state_def Attendant_init_def)

text \<open>
  C4 as amended: for a worker with \<open>active_orders = [t0, t1]\<close>, \<open>t0 \<le> t1\<close>, and every
  refresh time \<open>c < t0 + 5\<close> (so that both orders remain after the eviction step),
  \<open>next_available\<close> is exactly \<open>max (t0 + 5) (t1 + 3)\<close> and both orders are kept.
\<close>

theorem double_order_gate:
  assumes "active_orders a = [t0, t1]" and "t0 \<le> t1" and "c < t0 + 5"
  shows "next_available (update_state a c) = max (t0 + 5) (t1 + 3) \<and>
         active_orders (update_state a c) = [t0, t1]"
  using assms by (simp add: update_state_def Let_def)

theorem double_order_gate_witness:
  "active_orders ((Attendant_init ''Alice'')\<lparr>active_orders := [0, 1]\<rparr>) = [0, 1] \<and>
   (0::real) \<le> 1 \<and> (2::real) < 0 + 5 \<and>
   next_available (update_state ((Attendant_init ''Alice'')\<lparr>active_orders := [0, 1]\<rparr>) 2) = 5 \<and>
   active_orders (update_state ((Attendant_init ''Alice'')\<lparr>active_orders := [0, 1]\<rparr>) 2) = [0, 1]"
  using double_order_gate [of "(Attendant_init ''Alice'')\<lparr>active_orders := [0, 1]\<rparr>" 0 1 2]
  by (simp add: Attendant_init_def)

text \<open>
  C5 (unknown worker). For a name that is not a key of the roster,
  \<^verbatim>\<open>update_attendant_status\<close> fails with the dictionary's KeyError (the spec's
  UnknownWorkerError); for a name that is a key it succeeds, and the worker's new state
  is the spec's \<open>setStatus\<close> applied at the orchestrator's current time.
\<close>

theorem update_attendant_status_lookup:
  "(n \<notin> fst ` set (attendants s) \<longrightarrow> update_attendant_status s n st = Inl KeyError) \<and>
   (n \<in> fst ` set (attendants s) \<longrightarrow>
      (\<exists>a. map_of (attendants s) n = Some a \<and>
           update_attendant_status s n st =
             Inr (s\<lparr>attendants :=
                     AList.update n (spec_setStatus a st (current_time s)) (attendants s)\<rparr>)))"
proof (intro conjI impI)
  assume "n \<notin> fst ` set (attendants s)"
  then have "map_of (attendants s) n = None" by (simp add: map_of_eq_None_iff)
  then show "update_attendant_status s n st = Inl KeyError"
    by (simp add: update_attendant_status_def)
next
  assume "n \<in> fst ` set (attendants s)"
  then obtain a where a: "map_of (attendants s) n = Some a"
    by (cases "map_of (attendants s) n") (auto simp: map_of_eq_None_iff)
  then show "\<exists>a. map_of (attendants s) n = Some a \<and>
           update_attendant_status s n st =
             Inr (s\<lparr>attendants :=
                     AList.update n (spec_setStatus a st (current_time s)) (attendants s)\<rparr>)"
    by (simp add: update_attendant_status_def spec_setStatus_def Let_def)
qed

theorem update_attendant_status_lookup_witness:
  "''Carol'' \<notin> fst ` set (attendants demo_roster) \<and>
   update_attendant_status demo_roster ''Carol'' ''inactive'' = Inl KeyError \<and>
   ''Bob'' \<in> fst ` set (attendants demo_roster) \<and>
   (\<exists>a. map_of (attendants demo_roster) ''Bob'' = Some a \<and>
        update_attendant_status demo_roster ''Bob'' ''inactive'' =
          Inr (demo_roster\<lparr>attendants :=
                 AList.update ''Bob'' (spec_setStatus a ''inactive'' (current_time demo_roster))
                   (attendants demo_roster)\<rparr>))"
  using update_attendant_status_lookup [of "''Carol''" demo_roster "''inactive''"]
    update_attendant_status_lookup [of "''Bob''" demo_roster "''inactive''"]
  by (simp add: demo_roster_eval)

text \<open>
  C6 (monotonic time). As stated, with the clock never moving backward in a run started
  after any sequence of submitted arrivals, the claim fails at the first event of a
  run: the clock starts at 0, an arrival may be submitted at an earlier time, and the
  first iteration sets the clock to it. With one arrival at -1 the clock goes from 0 to
  -1 and then to 4.
\<close>

theorem monotonic_time_counterexample:
  "reachable early \<and> current_time early = 0 \<and>
   map (\<lambda>(e, s1). current_time s1) (run_trace (\<lambda>_. 0) early) = [- 1, 4] \<and>
   \<not> sorted (current_time early # map (\<lambda>(e, s1). current_time s1) (run_trace (\<lambda>_. 0) early))"
proof -
  have "current_time early = 0" by (simp add: early_def run_eval)
  then show ?thesis using reachable_early early_trace by simp
qed

text \<open>
  C6 as amended. In a run started from a reachable state, the times of the events
  popped one after the other are non-decreasing, and handling each event leaves the
  clock at that event's time; so from the first processed event of the run on, the
  clock never moves backward, although the handlers push completions while the loop
  runs. The lines printed carry these times, and the run ends in the state the last
  iteration leaves. If no event queued at the start is earlier than the clock's value
  at the start, then the clock does not move backward at the first event either.
\<close>

theorem monotonic_time:
  assumes "reachable s" and "process_events rs s = Inr (outs, rs', s')"
  shows "sorted (map (\<lambda>(e, s1). time e) (run_trace rs s)) \<and>
         map (\<lambda>(e, s1). current_time s1) (run_trace rs s) =
           map (\<lambda>(e, s1). time e) (run_trace rs s) \<and>
         sorted (map (\<lambda>(e, s1). current_time s1) (run_trace rs s)) \<and>
         map printed_time outs = map (\<lambda>(e, s1). time e) (run_trace rs s) \<and>
         s' = last (s # map snd (run_trace rs s)) \<and>
         ((\<forall>e\<in>set (event_queue s). current_time s \<le> time e) \<longrightarrow>
            sorted (current_time s # map (\<lambda>(e, s1). current_time s1) (run_trace rs s)))"
proof -
  have h: "is_heap (event_queue s)"
    using reachable_orch_inv[OF assms(1)] by (simp add: orch_inv_iff)
  obtain lb where "\<forall>e\<in>set (event_queue s). lb \<le> time e"
  proof (cases "event_queue s = []")
    case True
    then show ?thesis using that[of 0] by simp
  next
    case False
    then have "\<forall>e\<in>set (event_queue s). time (event_queue s ! 0) \<le> time e"
      using is_heap_root_le[OF h] by (auto simp: in_set_conv_nth)
    then show ?thesis using that by blast
  qed
  from process_events_times[OF assms(2) h this]
  have srt: "sorted (map printed_time outs)" by blast
  note tr = run_trace_process_events[OF assms(2)]
  have first: "sorted (current_time s # map (\<lambda>(e, s1). current_time s1) (run_trace rs s))"
    if "\<forall>e\<in>set (event_queue s). current_time s \<le> time e"
  proof -
    have "\<forall>out\<in>set outs. current_time s \<le> printed_time out"
      using process_events_times[OF assms(2) h that] by blast
    then show ?thesis using srt tr by auto
  qed
  show ?thesis using srt tr first by simp
qed

theorem monotonic_time_witness:
  "reachable demo \<and>
   process_events (\<lambda>_. 0) demo =
     Inr ([Order_accepted 0 ''Alice'', Order_accepted 1 ''Bob'', Order_rejected 2,
           Order_completed 5 ''Alice'', Order_completed 6 ''Bob''],
          (\<lambda>_. 0),
          \<lparr>attendants =
             [(''Alice'', \<lparr>name = ''Alice'', active_orders = [], status = ''active'',
                          next_available = 5\<rparr>),
              (''Bob'', \<lparr>name = ''Bob'', active_orders = [], status = ''active'',
                        next_available = 6\<rparr>)],
           event_queue = [], current_time = 6, processed = 2, rejected = 1\<rparr>) \<and>
   map (\<lambda>(e, s1). time e) (run_trace (\<lambda>_. 0) demo) = [0, 1, 2, 5, 6] \<and>
   map (\<lambda>(e, s1). current_time s1) (run_trace (\<lambda>_. 0) demo) = [0, 1, 2, 5, 6] \<and>
   sorted (map (\<lambda>(e, s1). time e) (run_trace (\<lambda>_. 0) demo)) \<and>
   sorted (map (\<lambda>(e, s1). current_time s1) (run_trace (\<lambda>_. 0) demo)) \<and>
   current_time demo = 0 \<and> map time (event_queue demo) = [0, 1, 2] \<and>
   sorted (current_time demo # map (\<lambda>(e, s1). current_time s1) (run_trace (\<lambda>_. 0) demo))"
proof -
  have d: "current_time demo = 0" "map time (event_queue demo) = [0, 1, 2]"
    by (simp_all add: demo_def run_eval)
  show ?thesis
    using reachable_demo demo_run d demo_trace monotonic_time[OF reachable_demo demo_run]
    by simp
qed

text \<open>
  C7 (idempotent refresh). Refreshing twice at the same time \<open>c\<close>, with nothing in
  between, gives the same worker state as refreshing once: the same \<open>active_orders\<close>,
  the same \<open>next_available\<close>, and name and status untouched.
\<close>

theorem update_state_idempotent:
  "update_state (update_state a c) c = update_state a c"
  by (simp add: update_state_def Let_def)

text \<open>
  C8 (frame of a status change). For a worker of the roster and a status other than
  \<^verbatim>\<open>'active'\<close>, \<^verbatim>\<open>update_attendant_status\<close> replaces the worker's entry by the same
  worker with the new status: its orders and its \<open>next_available\<close> are untouched, no
  other entry changes, the roster keeps its order, and queue, clock and counters stay
  as they were. For the status \<^verbatim>\<open>'active'\<close> the worker is refreshed at the current time
  in addition, and nothing else changes either.
\<close>

theorem update_attendant_status_frame:
  assumes "map_of (attendants s) n = Some a"
  shows "(st \<noteq> ''active'' \<longrightarrow>
           (\<exists>s'. update_attendant_status s n st = Inr s' \<and>
                 map_of (attendants s') n = Some (a\<lparr>status := st\<rparr>) \<and>
                 (\<forall>m. m \<noteq> n \<longrightarrow> map_of (attendants s') m = map_of (attendants s) m) \<and>
                 map fst (attendants s') = map fst (attendants s) \<and>
                 attendants s' = AList.update n (a\<lparr>status := st\<rparr>) (attendants s) \<and>
                 event_queue s' = event_queue s \<and> current_time s' = current_time s \<and>
                 processed s' = processed s \<and> rejected s' = rejected s)) \<and>
         (st = ''active'' \<longrightarrow>
           (\<exists>s'. update_attendant_status s n st = Inr s' \<and>
                 map_of (attendants s') n =
                   Some (update_state (a\<lparr>status := st\<rparr>) (current_time s)) \<and>
                 (\<forall>m. m \<noteq> n \<longrightarrow> map_of (attendants s') m = map_of (attendants s) m) \<and>
                 map fst (attendants s') = map fst (attendants s) \<and>
                 event_queue s' = event_queue s \<and> current_time s' = current_time s \<and>
                 processed s' = processed s \<and> rejected s' = rejected s))"
proof -
  have key: "n \<in> fst ` set (attendants s)"
    using assms by (force dest: map_of_SomeD)
  have keys: "map fst (AList.update n v (attendants s)) = map fst (attendants s)" for v
    using key by (simp add: update_keys)
  show ?thesis
    using assms keys
    by (simp add: update_attendant_status_def Let_def update_conv')
qed

theorem update_attendant_status_frame_witness:
  "map_of (attendants stale) ''Alice'' =
     Some \<lparr>name = ''Alice'', active_orders = [0], status = ''active'', next_available = 3\<rparr> \<and>
   update_attendant_status stale ''Alice'' ''overloaded'' =
     Inr (stale\<lparr>attendants := [(''Alice'', \<lparr>name = ''Alice'', active_orders = [0],
                                   status = ''overloaded'', next_available = 3\<rparr>)]\<rparr>) \<and>
   update_attendant_status stale ''Alice'' ''active'' =
     Inr (stale\<lparr>attendants := [(''Alice'', \<lparr>name = ''Alice'', active_orders = [],
                                   status = ''active'', next_available = 7\<rparr>)]\<rparr>)"
proof -
  have h: "map_of (attendants stale) ''Alice'' =
     Some \<lparr>name = ''Alice'', active_orders = [0], status = ''active'', next_available = 3\<rparr>"
    by (simp add: stale_def)
  show ?thesis
    using h update_attendant_status_frame[OF h, of "''overloaded''"]
      update_attendant_status_frame[OF h, of "''active''"]
    by (auto simp: stale_def update_state_def)
qed

text \<open>
  C9 (termination). From every reachable state and with every random source the run
  returns, and it returns with an empty queue; the number of iterations is the number
  of events queued at the start plus the number of arrivals accepted during the run,
  each of which pushes one completion. The loop does no iteration exactly when the
  queue is empty.
\<close>

theorem run_terminates:
  assumes "reachable s"
  shows "(\<exists>outs rs' s'. process_events rs s = Inr (outs, rs', s') \<and> event_queue s' = [] \<and>
            length outs = length (event_queue s) + nat (processed s' - processed s)) \<and>
         (event_queue s = [] \<longleftrightarrow> process_events rs s = Inr ([], rs, s))"
proof -
  obtain outs rs' s' where run: "process_events rs s = Inr (outs, rs', s')"
    using process_events_succeeds[OF reachable_orch_inv[OF assms], of rs] by blast
  from process_events_counts[OF run]
  have "event_queue s' = []"
    and "length outs = length (event_queue s) + nat (processed s' - processed s)"
    by simp_all
  moreover have "event_queue s = [] \<longleftrightarrow> process_events rs s = Inr ([], rs, s)"
    using process_events_empty[of s rs] process_events_no_output[of rs s rs s] by blast
  ultimately show ?thesis using run by blast
qed

theorem run_terminates_witness:
  "reachable demo \<and>
   (\<exists>outs rs' s'. process_events (\<lambda>_. 0) demo = Inr (outs, rs', s') \<and> event_queue s' = [] \<and>
      length outs = length (event_queue demo) + nat (processed s' - processed demo)) \<and>
   length (event_queue demo) = 3 \<and>
   (\<exists>rs' s'. process_events (\<lambda>_. 0) demo =
      Inr ([Order_accepted 0 ''Alice'', Order_accepted 1 ''Bob'', Order_rejected 2,
            Order_completed 5 ''Alice'', Order_completed 6 ''Bob''], rs', s') \<and>
      processed s' - processed demo = 2)"
proof -
  have "length (event_queue demo) = 3" "processed demo = 0"
    by (simp_all add: demo_def run_eval)
  then show ?thesis
    using reachable_demo run_terminates[OF reachable_demo, of "\<lambda>_. 0"] demo_run by simp
qed

text \<open>
  C10 (counters). Handling an arrival adds one to \<open>processed\<close> and leaves \<open>rejected\<close>
  when the candidate set is not empty, and adds one to \<open>rejected\<close> and leaves
  \<open>processed\<close> when it is empty. Submitting an arrival, changing a status and handling
  a completion leave both counters. Hence no iteration of the loop decreases a counter,
  and over a run \<open>processed\<close> grows by the number of accepted lines, \<open>rejected\<close> by the
  number of rejected lines, and their sum by the number of arrivals in the queue at
  the start, all of which are popped.
\<close>

theorem counters_account_for_arrivals:
  "(candidate_set (current_time s) (attendants s) \<noteq> [] \<longrightarrow>
      processed (snd (snd (handle_order_arrival rs s))) = processed s + 1 \<and>
      rejected (snd (snd (handle_order_arrival rs s))) = rejected s) \<and>
   (candidate_set (current_time s) (attendants s) = [] \<longrightarrow>
      processed (snd (snd (handle_order_arrival rs s))) = processed s \<and>
      rejected (snd (snd (handle_order_arrival rs s))) = rejected s + 1) \<and>
   processed (add_order s t) = processed s \<and> rejected (add_order s t) = rejected s \<and>
   (\<forall>s'. update_attendant_status s n st = Inr s' \<longrightarrow>
      processed s' = processed s \<and> rejected s' = rejected s) \<and>
   (\<forall>out s'. handle_order_completion s n = Inr (out, s') \<longrightarrow>
      processed s' = processed s \<and> rejected s' = rejected s) \<and>
   (\<forall>out rs' s'. process_event rs s = Inr (out, rs', s') \<longrightarrow>
      processed s \<le> processed s' \<and> rejected s \<le> rejected s') \<and>
   (\<forall>outs rs' s'. process_events rs s = Inr (outs, rs', s') \<longrightarrow>
      processed s' + rejected s' = processed s + rejected s + int (arrivals (event_queue s)) \<and>
      processed s' = processed s + int (length (filter accepted_line outs)) \<and>
      rejected s' = rejected s + int (length (filter rejected_line outs)) \<and>
      processed s \<le> processed s' \<and> rejected s \<le> rejected s')"
proof -
  obtain out rs1 s1 where hoa: "handle_order_arrival rs s = (out, rs1, s1)"
    by (cases "handle_order_arrival rs s") auto
  note e = handle_order_arrival_effect[OF hoa]
  have A: "candidate_set (current_time s) (attendants s) \<noteq> [] \<longrightarrow>
      processed (snd (snd (handle_order_arrival rs s))) = processed s + 1 \<and>
      rejected (snd (snd (handle_order_arrival rs s))) = rejected s"
    using e by (simp add: hoa)
  have B: "candidate_set (current_time s) (attendants s) = [] \<longrightarrow>
      processed (snd (snd (handle_order_arrival rs s))) = processed s \<and>
      rejected (snd (snd (handle_order_arrival rs s))) = rejected s + 1"
    using e by (auto simp add: hoa)
  have C: "processed (add_order s t) = processed s \<and> rejected (add_order s t) = rejected s"
    by (simp add: add_order_def)
  have D: "\<forall>s'. update_attendant_status s n st = Inr s' \<longrightarrow>
      processed s' = processed s \<and> rejected s' = rejected s"
    by (auto simp: update_attendant_status_def Let_def split: option.splits)
  have E: "\<forall>out s'. handle_order_completion s n = Inr (out, s') \<longrightarrow>
      processed s' = processed s \<and> rejected s' = rejected s"
    using handle_order_completion_effect by blast
  have F: "\<forall>out rs' s'. process_event rs s = Inr (out, rs', s') \<longrightarrow>
      processed s \<le> processed s' \<and> rejected s \<le> rejected s'"
    using process_event_counts(1,2) by fastforce
  have G: "\<forall>outs rs' s'. process_events rs s = Inr (outs, rs', s') \<longrightarrow>
      processed s' + rejected s' = processed s + rejected s + int (arrivals (event_queue s)) \<and>
      processed s' = processed s + int (length (filter accepted_line outs)) \<and>
      rejected s' = rejected s + int (length (filter rejected_line outs)) \<and>
      processed s \<le> processed s' \<and> rejected s \<le> rejected s'"
    using process_events_counts by fastforce
  show ?thesis using A B C D E F G by blast
qed

theorem counters_account_for_arrivals_witness:
  "candidate_set (current_time busy_alice) (attendants busy_alice) \<noteq> [] \<and>
   processed (snd (snd (handle_order_arrival (\<lambda>_. 0) busy_alice))) = processed busy_alice + 1 \<and>
   rejected (snd (snd (handle_order_arrival (\<lambda>_. 0) busy_alice))) = rejected busy_alice \<and>
   candidate_set (current_time closed_shop) (attendants closed_shop) = [] \<and>
   processed (snd (snd (handle_order_arrival (\<lambda>_. 0) closed_shop))) = processed closed_shop \<and>
   rejected (snd (snd (handle_order_arrival (\<lambda>_. 0) closed_shop))) = rejected closed_shop + 1 \<and>
   arrivals (event_queue demo) = 3 \<and> processed demo = 0 \<and> rejected demo = 0 \<and>
   (\<exists>outs rs' s'. process_events (\<lambda>_. 0) demo = Inr (outs, rs', s') \<and>
      processed s' + rejected s' = processed demo + rejected demo + int (arrivals (event_queue demo)) \<and>
      processed s' = 2 \<and> rejected s' = 1 \<and>
      length (filter accepted_line outs) = 2 \<and> length (filter rejected_line outs) = 1)"
proof -
  have h1: "candidate_set (current_time busy_alice) (attendants busy_alice) \<noteq> []"
    by (simp add: busy_alice_def candidate_set_def update_state_def can_accept_def)
  have h2: "candidate_set (current_time closed_shop) (attendants closed_shop) = []"
    by (simp add: closed_shop_def candidate_set_def update_state_def can_accept_def)
  have h3: "arrivals (event_queue demo) = 3" "processed demo = 0" "rejected demo = 0"
    by (simp_all add: demo_def arrivals_def run_eval)
  show ?thesis
    using h1 h2 h3 demo_run
      counters_account_for_arrivals[of busy_alice "\<lambda>_. 0"]
      counters_account_for_arrivals[of closed_shop "\<lambda>_. 0"]
      counters_account_for_arrivals[of demo "\<lambda>_. 0"]
    by simp
qed

end
